theory Spec2Isabelle
  imports Complex_Main "HOL-Library.Sublist" "HOL-Library.Log_Nat"
begin

section \<open>Python values and the string operations the migration script relies on\<close>

text \<open>
  The script \<^verbatim>\<open>migrate_oxibooru_tags.py\<close> works on JSON payloads decoded into Python
  values. A decoded payload is a \<open>pyval\<close>; a Python \<open>dict\<close> is an association list whose
  first binding of a key is the one \<open>dict.get\<close> returns.

  Strings are lists of characters; a \<open>char\<close> stands for the code point of the same number,
  so the model covers the strings whose code points are below 256, and \<open>str.strip\<close>,
  \<open>str.lower\<close> and \<open>str.splitlines\<close> are written out for that range.

  A Python float is a double: a finite value, an infinity or NaN. The finite values are
  kept as the reals they denote (the two zeros are one value); \<open>json\<close> decodes the
  literals \<open>NaN\<close>, \<open>Infinity\<close> and \<open>-Infinity\<close> to the other three.
\<close>

datatype pyfloat = Finite real | PosInf | NegInf | NaN

datatype pyval =
    PNone
  | PBool bool
  | PInt int
  | PFloat pyfloat
  | PStr string
  | PList "pyval list"
  | PDict "(string \<times> pyval) list"

type_synonym pydict = "(string \<times> pyval) list"

datatype exn =
    TypeError | ValueError | KeyError | IndexError | AttributeError | OverflowError
  | RuntimeError string

text \<open>\<open>d.get(k)\<close>: the value bound to \<open>k\<close>, or \<open>None\<close>.\<close>

definition py_get :: "pydict \<Rightarrow> string \<Rightarrow> pyval" where
  "py_get d k = (case map_of d k of None \<Rightarrow> PNone | Some v \<Rightarrow> v)"

text \<open>Truth value of a Python object, as \<open>not x\<close>, \<open>x or y\<close> and \<open>if x\<close> test it.\<close>

fun truthy :: "pyval \<Rightarrow> bool" where
  "truthy PNone = False"
| "truthy (PBool b) = b"
| "truthy (PInt i) = (i \<noteq> 0)"
| "truthy (PFloat x) = (x \<noteq> Finite 0)"
| "truthy (PStr s) = (s \<noteq> [])"
| "truthy (PList xs) = (xs \<noteq> [])"
| "truthy (PDict d) = (d \<noteq> [])"

definition py_or :: "pyval \<Rightarrow> pyval \<Rightarrow> pyval" where
  "py_or x y = (if truthy x then x else y)"

fun is_dict :: "pyval \<Rightarrow> bool" where
  "is_dict (PDict d) = True"
| "is_dict v = False"

text \<open>
  The comparisons \<open>x < y\<close> and \<open>x > y\<close> of two floats: NaN is neither below nor above
  anything.
\<close>

fun float_lt :: "pyfloat \<Rightarrow> pyfloat \<Rightarrow> bool" where
  "float_lt (Finite a) (Finite b) = (a < b)"
| "float_lt (Finite a) PosInf = True"
| "float_lt NegInf (Finite b) = True"
| "float_lt NegInf PosInf = True"
| "float_lt x y = False"

definition float_gt :: "pyfloat \<Rightarrow> pyfloat \<Rightarrow> bool" where
  "float_gt x y = float_lt y x"

text \<open>
  \<open>float(i)\<close> of an integer: the nearest double, ties to the even significand of 53
  bits, and OverflowError when that is beyond the largest double, which is so from
  \<open>2^1024 - 2^970\<close> on.
\<close>

definition float_of_int :: "int \<Rightarrow> exn + pyfloat" where
  "float_of_int i =
     (let a = \<bar>i\<bar> in
      if a < 2 ^ 53 then Inr (Finite (of_int i))
      else
        let e = nat (bitlen a - 53);
            q = a div 2 ^ e;
            r = a mod 2 ^ e;
            q' = (if 2 * r > 2 ^ e \<or> (2 * r = 2 ^ e \<and> odd q) then q + 1 else q)
        in if q' * 2 ^ e \<ge> 2 ^ 1024 then Inl OverflowError
           else Inr (Finite (of_int (sgn i * (q' * 2 ^ e)))))"

text \<open>
  The Python built-ins whose result is not fixed by the script are parameters.
  \<open>float_of_str\<close> and \<open>int_of_str\<close> parse a string (\<open>None\<close> is the ValueError; the float
  grammar accepts \<open>nan\<close> and \<open>inf\<close>, and a literal beyond the range of a double is an
  infinity, not an error); \<open>str_of\<close> is \<open>str\<close> on a value that is not a string;
  \<open>sort_unordered\<close> is the order in which \<open>list.sort\<close> leaves candidates that it cannot
  order, see \<open>sort_by_distance\<close>.
\<close>

record builtins =
  float_of_str :: "string \<Rightarrow> pyfloat option"
  int_of_str :: "string \<Rightarrow> int option"
  str_of :: "pyval \<Rightarrow> string"
  sort_unordered :: "(pyfloat \<times> pydict) list \<Rightarrow> (pyfloat \<times> pydict) list"

fun py_str :: "builtins \<Rightarrow> pyval \<Rightarrow> string" where
  "py_str py (PStr s) = s"
| "py_str py v = str_of py v"

text \<open>
  \<open>float(x)\<close>: a float is itself, a bool is 0.0 or 1.0, an integer converts or raises
  OverflowError, a string converts when the float grammar accepts it and raises
  ValueError otherwise, and \<open>None\<close>, a list and a dict raise TypeError.
\<close>

fun py_float :: "builtins \<Rightarrow> pyval \<Rightarrow> exn + pyfloat" where
  "py_float py PNone = Inl TypeError"
| "py_float py (PBool b) = Inr (Finite (if b then 1 else 0))"
| "py_float py (PInt i) = float_of_int i"
| "py_float py (PFloat x) = Inr x"
| "py_float py (PStr s) = (case float_of_str py s of None \<Rightarrow> Inl ValueError | Some x \<Rightarrow> Inr x)"
| "py_float py (PList xs) = Inl TypeError"
| "py_float py (PDict d) = Inl TypeError"

text \<open>\<open>str.isspace\<close> of one character.\<close>

definition is_space :: "char \<Rightarrow> bool" where
  "is_space c = (c \<in> set [CHR 0x09, CHR 0x0A, CHR 0x0B, CHR 0x0C, CHR 0x0D,
                           CHR 0x1C, CHR 0x1D, CHR 0x1E, CHR 0x1F, CHR 0x20,
                           CHR 0x85, CHR 0xA0])"

definition strip :: "string \<Rightarrow> string" where
  "strip s = rev (dropWhile is_space (rev (dropWhile is_space s)))"

text \<open>
  \<open>str.lower\<close>: the upper-case letters below 256 are \<open>A\<close> to \<open>Z\<close> and 192 to 222 without
  215; the lower-case letter is 32 above, which is the same code with bit 5 set.
\<close>

definition is_upper :: "char \<Rightarrow> bool" where
  "is_upper c = (let n = (of_char c :: nat)
                 in (65 \<le> n \<and> n \<le> 90) \<or> (192 \<le> n \<and> n \<le> 222 \<and> n \<noteq> 215))"

fun set_bit5 :: "char \<Rightarrow> char" where
  "set_bit5 (Char b0 b1 b2 b3 b4 b5 b6 b7) = Char b0 b1 b2 b3 b4 True b6 b7"

definition lower_char :: "char \<Rightarrow> char" where
  "lower_char c = (if is_upper c then set_bit5 c else c)"

definition lower :: "string \<Rightarrow> string" where
  "lower s = map lower_char s"

definition normalize_name :: "string \<Rightarrow> string" where
  "normalize_name name = lower (strip name)"

text \<open>
  \<open>str.splitlines\<close>: a line ends at \<open>\r\n\<close>, \<open>\r\<close>, \<open>\n\<close>, \<open>\v\<close>, \<open>\f\<close>, at the
  separators 0x1C to 0x1E and at 0x85; the line breaks are dropped and a final line break
  opens no empty last line. \<open>cur\<close> is the current line, reversed.
\<close>

fun splitlines_from :: "string \<Rightarrow> string \<Rightarrow> string list" where
  "splitlines_from cur [] = (if cur = [] then [] else [rev cur])"
| "splitlines_from cur (c # cs) =
     (if c = CHR 0x0D then
        (case cs of
           d # ds \<Rightarrow> if d = CHR 0x0A then rev cur # splitlines_from [] ds
                     else rev cur # splitlines_from [] cs
         | [] \<Rightarrow> rev cur # splitlines_from [] cs)
      else if c \<in> set [CHR 0x0A, CHR 0x0B, CHR 0x0C, CHR 0x1C, CHR 0x1D, CHR 0x1E, CHR 0x85]
      then rev cur # splitlines_from [] cs
      else splitlines_from (c # cur) cs)"

definition splitlines :: "string \<Rightarrow> string list" where
  "splitlines s = splitlines_from [] s"

section \<open>Source Extractor: \<open>extract_oxibooru_sources\<close>\<close>

text \<open>
  The loop over the candidate entries, with its two accumulators: the set \<open>seen\<close> of the
  lower-cased values met so far and the list \<open>result\<close>.
\<close>

fun extract_loop :: "string list \<Rightarrow> string set \<Rightarrow> string list \<Rightarrow> string list" where
  "extract_loop [] seen result = result"
| "extract_loop (item # rest) seen result =
     (let v = strip item in
      if v = [] then extract_loop rest seen result
      else let key = lower v in
        if key \<in> seen then extract_loop rest seen result
        else extract_loop rest (insert key seen) (result @ [v]))"

fun str_items :: "pyval list \<Rightarrow> string list" where
  "str_items [] = []"
| "str_items (PStr s # xs) = s # str_items xs"
| "str_items (x # xs) = str_items xs"

definition extract_oxibooru_sources :: "pydict \<Rightarrow> string list" where
  "extract_oxibooru_sources oxi_post =
     (case py_get oxi_post ''source'' of
        PNone \<Rightarrow> []
      | PStr raw \<Rightarrow> extract_loop (splitlines raw) {} []
      | PList raw \<Rightarrow> extract_loop (str_items raw) {} []
      | _ \<Rightarrow> [])"

text \<open>
  What the extractor returns, said without the accumulators: the candidate entries of a
  \<open>source\<close> field, their trimmed non-empty values, and the values kept when each
  lower-cased key is taken once at its first occurrence (\<open>seen\<close> holds the keys already
  taken).
\<close>

definition trimmed :: "string list \<Rightarrow> string list" where
  "trimmed cands = filter (\<lambda>v. v \<noteq> []) (map strip cands)"

fun keep_first :: "string set \<Rightarrow> string list \<Rightarrow> string list" where
  "keep_first seen [] = []"
| "keep_first seen (v # vs) =
     (if lower v \<in> seen then keep_first seen vs
      else v # keep_first (insert (lower v) seen) vs)"



definition source_candidates :: "pydict \<Rightarrow> string list" where
  "source_candidates oxi_post =
     (case py_get oxi_post ''source'' of
        PStr raw \<Rightarrow> splitlines raw
      | PList raw \<Rightarrow> str_items raw
      | _ \<Rightarrow> [])"

section \<open>Match Selector: \<open>select_reverse_search_match\<close>\<close>

text \<open>
  The loop that collects the candidates \<open>(distance, post)\<close>. The handler of the
  conversion catches TypeError and ValueError only; any other exception leaves the
  function.
\<close>

fun similar_candidates ::
  "builtins \<Rightarrow> pyval list \<Rightarrow> exn + (pyfloat \<times> pydict) list" where
  "similar_candidates py [] = Inr []"
| "similar_candidates py (item # rest) =
     (case item of
        PDict d \<Rightarrow>
          (case py_get d ''post'' of
             PDict post \<Rightarrow>
               (case py_float py (py_get d ''distance'') of
                  Inl e \<Rightarrow>
                    if e = TypeError \<or> e = ValueError then similar_candidates py rest
                    else Inl e
                | Inr distance \<Rightarrow>
                    (case similar_candidates py rest of
                       Inl e \<Rightarrow> Inl e
                     | Inr cs \<Rightarrow> Inr ((distance, post) # cs)))
           | _ \<Rightarrow> similar_candidates py rest)
      | _ \<Rightarrow> similar_candidates py rest)"

text \<open>
  \<open>candidates.sort(key=lambda pair: pair[0])\<close>. \<open>list.sort\<close> compares keys with \<open><\<close>
  only. When no key is NaN the keys are totally ordered and the result is the stable sort:
  \<open>stable_sort\<close> inserts each candidate, from the last to the first, before the first
  candidate that is not below it. With a NaN among the keys, a list in which no key is
  below its predecessor is one ascending run to the sort, which leaves it as it is; the
  order left in the remaining case depends on the merge strategy of the interpreter and
  is the parameter \<open>sort_unordered\<close>.
\<close>

fun insort_by_distance ::
  "pyfloat \<times> pydict \<Rightarrow> (pyfloat \<times> pydict) list \<Rightarrow> (pyfloat \<times> pydict) list" where
  "insort_by_distance x [] = [x]"
| "insort_by_distance x (y # ys) =
     (if float_lt (fst y) (fst x) then y # insort_by_distance x ys else x # y # ys)"

definition stable_sort :: "(pyfloat \<times> pydict) list \<Rightarrow> (pyfloat \<times> pydict) list" where
  "stable_sort xs = foldr insort_by_distance xs []"

fun ascending_run :: "pyfloat list \<Rightarrow> bool" where
  "ascending_run (x # y # zs) = (\<not> float_lt y x \<and> ascending_run (y # zs))"
| "ascending_run zs = True"

definition sort_by_distance ::
  "builtins \<Rightarrow> (pyfloat \<times> pydict) list \<Rightarrow> (pyfloat \<times> pydict) list" where
  "sort_by_distance py xs =
     (if NaN \<notin> set (map fst xs) then stable_sort xs
      else if ascending_run (map fst xs) then xs
      else sort_unordered py xs)"

text \<open>
  The selector. The result is the post, the kind of match and the distance; \<open>None\<close> is
  Python's \<open>None\<close>. \<open>candidates[0]\<close> raises IndexError on an empty list, which a sort
  never leaves of a list that is not empty.
\<close>

type_synonym match_result = "pydict option \<times> string \<times> pyfloat option"

definition select_reverse_search_match ::
  "builtins \<Rightarrow> pydict \<Rightarrow> pyfloat \<Rightarrow> exn + match_result" where
  "select_reverse_search_match py reverse_result max_similar_distance =
     (case py_get reverse_result ''exactPost'' of
        PDict exact \<Rightarrow> Inr (Some exact, ''exact'', Some (Finite 0))
      | _ \<Rightarrow>
        (case py_or (py_get reverse_result ''similarPosts'') (PList []) of
           PList similar_posts \<Rightarrow>
             if similar_posts = [] then Inr (None, ''none'', None)
             else
               (case similar_candidates py similar_posts of
                  Inl e \<Rightarrow> Inl e
                | Inr candidates \<Rightarrow>
                    if candidates = [] then Inr (None, ''none'', None)
                    else
                      (case sort_by_distance py candidates of
                         (best_distance, best_post) # _ \<Rightarrow>
                           if float_gt best_distance max_similar_distance
                           then Inr (None, ''too_far'', Some best_distance)
                           else Inr (Some best_post, ''similar'', Some best_distance)
                       | [] \<Rightarrow> Inl IndexError))
         | _ \<Rightarrow> Inr (None, ''none'', None)))"

text \<open>
  A similar-candidate entry is well formed when it is an object whose \<open>post\<close> is an
  object and whose \<open>distance\<close> converts to a float. The distance of an entry overflows
  when the entry is an object whose \<open>post\<close> is an object and the conversion of its
  \<open>distance\<close> raises OverflowError.
\<close>

definition well_formed :: "builtins \<Rightarrow> pyval \<Rightarrow> bool" where
  "well_formed py item =
     (case item of
        PDict d \<Rightarrow> is_dict (py_get d ''post'') \<and> \<not> isl (py_float py (py_get d ''distance''))
      | _ \<Rightarrow> False)"

definition distance_overflows :: "builtins \<Rightarrow> pyval \<Rightarrow> bool" where
  "distance_overflows py item =
     (case item of
        PDict d \<Rightarrow> is_dict (py_get d ''post'') \<and>
                   py_float py (py_get d ''distance'') = Inl OverflowError
      | _ \<Rightarrow> False)"

text \<open>
  What the selector's candidates are, said without the loop: the distance and the post of
  an entry, and the well-formed entries of a list in their order.
\<close>

definition candidate_distance :: "builtins \<Rightarrow> pyval \<Rightarrow> pyfloat" where
  "candidate_distance py item =
     (case item of
        PDict d \<Rightarrow> (case py_float py (py_get d ''distance'') of Inr x \<Rightarrow> x | Inl e \<Rightarrow> Finite 0)
      | _ \<Rightarrow> Finite 0)"

definition candidate_post :: "pyval \<Rightarrow> pydict" where
  "candidate_post item =
     (case item of
        PDict d \<Rightarrow> (case py_get d ''post'' of PDict p \<Rightarrow> p | _ \<Rightarrow> [])
      | _ \<Rightarrow> [])"

definition wf_candidates :: "builtins \<Rightarrow> pyval list \<Rightarrow> (pyfloat \<times> pydict) list" where
  "wf_candidates py xs =
     map (\<lambda>item. (candidate_distance py item, candidate_post item)) (filter (well_formed py) xs)"

text \<open>
  A dict without the key \<open>k\<close>.
\<close>

definition dict_del :: "string \<Rightarrow> pydict \<Rightarrow> pydict" where
  "dict_del k d = filter (\<lambda>kv. fst kv \<noteq> k) d"

section \<open>The target catalogue and its client\<close>

text \<open>
  \<open>ManagedTag\<close> and \<open>ManagedCategory\<close> are the script's dataclasses.
\<close>

record ManagedTag =
  t_id :: int
  t_name :: string
  category_id :: "int option"

record ManagedCategory =
  c_id :: int
  c_name :: string
  color :: string
  c_order :: int

text \<open>
  The calls of \<open>BakabooruClient\<close> that the migrator issues. Each call is recorded, in
  order, in the field \<open>calls\<close> of the catalogue, so that a statement can say which calls
  an operation made.
\<close>

datatype call =
    CreateCategory string string int
  | CreateTag string "int option"
  | UpdateTag int string "int option"
  | AddTagToPost int string
  | GetPostSources int
  | SetPostSources int "string list"

text \<open>
  Modelled from the spec: the target catalogue service (section 6 of the specification),
  whose code is not part of the script. It holds the categories, the tags, the tag names
  attached to each post and the JSON payload of each post's sources. A call that the
  service refuses (\<open>refuses\<close>, any response that is not a success) makes the client
  raise RuntimeError, as \<open>_raise_for_status\<close> does.
\<close>

record bakabooru =
  categories :: "ManagedCategory list"
  tags :: "ManagedTag list"
  post_tag_names :: "int \<Rightarrow> string list"
  post_sources :: "int \<Rightarrow> pyval"
  refuses :: "call \<Rightarrow> bool"
  calls :: "call list"

text \<open>
  Modelled from the spec: what the service does with each call (category and tag
  creation, tag update, per-item tag attachment that reports "already attached", per-item
  source read and replace). A created entity gets the next free identifier and is stored
  with the name it was sent under; an update replaces the tag of that identifier; sources
  are stored as sent. The client's own part of each method is taken from the script.
\<close>

definition next_id :: "int list \<Rightarrow> int" where
  "next_id ids = fold max ids 0 + 1"

definition create_category ::
  "string \<Rightarrow> string \<Rightarrow> int \<Rightarrow> bakabooru \<Rightarrow> (exn + ManagedCategory) \<times> bakabooru" where
  "create_category name col ord b =
     (let c = CreateCategory name col ord; b1 = b\<lparr>calls := calls b @ [c]\<rparr> in
      if refuses b c then (Inl (RuntimeError ''Bakabooru create category''), b1)
      else
        let created = \<lparr>c_id = next_id (map c_id (categories b)), c_name = name,
                        color = col, c_order = ord\<rparr>
        in (Inr created, b1\<lparr>categories := categories b @ [created]\<rparr>))"

definition create_tag ::
  "string \<Rightarrow> int option \<Rightarrow> bakabooru \<Rightarrow> (exn + ManagedTag) \<times> bakabooru" where
  "create_tag name cat b =
     (let c = CreateTag name cat; b1 = b\<lparr>calls := calls b @ [c]\<rparr> in
      if refuses b c then (Inl (RuntimeError ''Bakabooru create tag''), b1)
      else
        let created = \<lparr>t_id = next_id (map t_id (tags b)), t_name = name, category_id = cat\<rparr>
        in (Inr created, b1\<lparr>tags := tags b @ [created]\<rparr>))"

definition update_tag ::
  "int \<Rightarrow> string \<Rightarrow> int option \<Rightarrow> bakabooru \<Rightarrow> (exn + ManagedTag) \<times> bakabooru" where
  "update_tag tag_id name cat b =
     (let c = UpdateTag tag_id name cat; b1 = b\<lparr>calls := calls b @ [c]\<rparr> in
      if refuses b c \<or> tag_id \<notin> set (map t_id (tags b))
      then (Inl (RuntimeError ''Bakabooru update tag''), b1)
      else
        let updated = \<lparr>t_id = tag_id, t_name = name, category_id = cat\<rparr>
        in (Inr updated,
            b1\<lparr>tags := map (\<lambda>t. if t_id t = tag_id then updated else t) (tags b)\<rparr>))"

text \<open>
  \<open>add_tag_to_post\<close> returns \<open>(True, status)\<close> for the statuses 204, 201 and 200,
  \<open>(False, 409)\<close> when the service reports the tag as already attached, and raises
  otherwise.
\<close>

definition add_tag_to_post ::
  "int \<Rightarrow> string \<Rightarrow> bakabooru \<Rightarrow> (exn + bool \<times> nat) \<times> bakabooru" where
  "add_tag_to_post post_id tag_name b =
     (let c = AddTagToPost post_id tag_name; b1 = b\<lparr>calls := calls b @ [c]\<rparr> in
      if refuses b c then (Inl (RuntimeError ''Bakabooru add tag''), b1)
      else if normalize_name tag_name \<in> set (map normalize_name (post_tag_names b post_id))
      then (Inr (False, 409), b1)
      else (Inr (True, 204),
            b1\<lparr>post_tag_names := (post_tag_names b)(post_id := post_tag_names b post_id @ [tag_name])\<rparr>))"

text \<open>
  \<open>get_post_sources\<close> is the client's code: the payload must be a list, and the strings
  of the list are returned trimmed, the empty ones dropped.
\<close>

definition get_post_sources :: "int \<Rightarrow> bakabooru \<Rightarrow> (exn + string list) \<times> bakabooru" where
  "get_post_sources post_id b =
     (let c = GetPostSources post_id; b1 = b\<lparr>calls := calls b @ [c]\<rparr> in
      if refuses b c then (Inl (RuntimeError ''Bakabooru get sources''), b1)
      else
        (case post_sources b post_id of
           PList payload \<Rightarrow> (Inr (trimmed (str_items payload)), b1)
         | _ \<Rightarrow> (Inl (RuntimeError ''Bakabooru sources payload is not a list''), b1)))"

definition set_post_sources :: "int \<Rightarrow> string list \<Rightarrow> bakabooru \<Rightarrow> (exn + unit) \<times> bakabooru" where
  "set_post_sources post_id sources b =
     (let c = SetPostSources post_id sources; b1 = b\<lparr>calls := calls b @ [c]\<rparr> in
      if refuses b c then (Inl (RuntimeError ''Bakabooru set sources''), b1)
      else (Inr (), b1\<lparr>post_sources := (post_sources b)(post_id := PList (map PStr sources))\<rparr>))"

section \<open>The migrator\<close>

text \<open>
  The state of a \<open>Migrator\<close>: its client's catalogue, the dry-run flag, the origin's
  category metadata and the two indexes, keyed by normalised name. A method returns its
  result, or the exception it raised, together with the state it left; what the script
  prints is not modelled.
\<close>

record oxi_category =
  oc_name :: string
  oc_color :: string
  oc_order :: int

record migrator =
  baka :: bakabooru
  dry_run :: bool
  oxi_categories :: "string \<Rightarrow> oxi_category option"
  categories_by_name :: "string \<Rightarrow> ManagedCategory option"
  tags_by_name :: "string \<Rightarrow> ManagedTag option"

definition ensure_tag ::
  "string \<Rightarrow> int option \<Rightarrow> migrator \<Rightarrow> (exn + ManagedTag option) \<times> migrator" where
  "ensure_tag tag_name cat m =
     (let key = normalize_name tag_name in
      case tags_by_name m key of
        Some existing \<Rightarrow>
          if category_id existing \<noteq> cat then
            if dry_run m then (Inr (Some existing), m)
            else
              (case update_tag (t_id existing) (t_name existing) cat (baka m) of
                 (Inl e, b) \<Rightarrow> (Inl e, m\<lparr>baka := b\<rparr>)
               | (Inr updated, b) \<Rightarrow>
                   (Inr (Some updated),
                    m\<lparr>baka := b, tags_by_name := (tags_by_name m)(key \<mapsto> updated)\<rparr>))
          else (Inr (Some existing), m)
      | None \<Rightarrow>
          if dry_run m then (Inr None, m)
          else
            (case create_tag tag_name cat (baka m) of
               (Inl e, b) \<Rightarrow> (Inl e, m\<lparr>baka := b\<rparr>)
             | (Inr created, b) \<Rightarrow>
                 (Inr (Some created),
                  m\<lparr>baka := b, tags_by_name := (tags_by_name m)(key \<mapsto> created)\<rparr>)))"

text \<open>
  The origin sources that \<open>migrate_post_sources\<close> adds: those whose trimmed value is not
  the trimmed value of a current source.
\<close>

definition sources_to_add :: "string list \<Rightarrow> string list \<Rightarrow> string list" where
  "sources_to_add current_sources oxi_sources =
     (let current_lookup = set (map strip current_sources)
      in filter (\<lambda>s. strip s \<notin> current_lookup) oxi_sources)"

definition migrate_post_sources ::
  "int \<Rightarrow> pydict \<Rightarrow> migrator \<Rightarrow> (exn + nat \<times> nat) \<times> migrator" where
  "migrate_post_sources post_id oxi_post m =
     (let oxi_sources = extract_oxibooru_sources oxi_post;
          discovered_count = length oxi_sources in
      if discovered_count = 0 then (Inr (0, 0), m)
      else
        (case get_post_sources post_id (baka m) of
           (Inl e, b) \<Rightarrow> (Inl e, m\<lparr>baka := b\<rparr>)
         | (Inr current_sources, b) \<Rightarrow>
             let to_add = sources_to_add current_sources oxi_sources in
             if to_add = [] then (Inr (discovered_count, 0), m\<lparr>baka := b\<rparr>)
             else if dry_run m then (Inr (discovered_count, length to_add), m\<lparr>baka := b\<rparr>)
             else
               (case set_post_sources post_id (current_sources @ to_add) b of
                  (Inl e, b') \<Rightarrow> (Inl e, m\<lparr>baka := b'\<rparr>)
                | (Inr u, b') \<Rightarrow> (Inr (discovered_count, length to_add), m\<lparr>baka := b'\<rparr>))))"

section \<open>Category Reconciler and tag synchronisation\<close>

text \<open>
  \<open>ensure_category\<close>: no category for an absent or blank name; the indexed category when
  there is one; otherwise a category created from the origin's metadata, with the colour
  \<open>#808080\<close> and the order 0 as defaults, or nothing at all in a dry run.
\<close>

definition ensure_category ::
  "string option \<Rightarrow> migrator \<Rightarrow> (exn + int option) \<times> migrator" where
  "ensure_category category_name m =
     (case category_name of
        None \<Rightarrow> (Inr None, m)
      | Some cn \<Rightarrow>
          if cn = [] \<or> strip cn = [] then (Inr None, m)
          else
            let key = normalize_name cn in
            (case categories_by_name m key of
               Some existing \<Rightarrow> (Inr (Some (c_id existing)), m)
             | None \<Rightarrow>
                 let source = oxi_categories m key;
                     col = (case source of
                              None \<Rightarrow> ''#808080''
                            | Some s \<Rightarrow> if oc_color s = [] then ''#808080'' else oc_color s);
                     ord = (case source of None \<Rightarrow> 0 | Some s \<Rightarrow> oc_order s);
                     display_name =
                       strip (case source of
                                None \<Rightarrow> cn
                              | Some s \<Rightarrow> if oc_name s = [] then cn else oc_name s)
                 in
                 if dry_run m then (Inr None, m)
                 else
                   (case create_category display_name col ord (baka m) of
                      (Inl e, b) \<Rightarrow> (Inl e, m\<lparr>baka := b\<rparr>)
                    | (Inr created, b) \<Rightarrow>
                        (Inr (Some (c_id created)),
                         m\<lparr>baka := b,
                           categories_by_name := (categories_by_name m)(key \<mapsto> created)\<rparr>))))"

text \<open>
  Iterating over a decoded value: a list gives its entries, a string its characters, a
  dict its keys; anything else is not iterable.
\<close>

fun py_iter :: "pyval \<Rightarrow> exn + pyval list" where
  "py_iter (PList xs) = Inr xs"
| "py_iter (PStr s) = Inr (map (\<lambda>c. PStr [c]) s)"
| "py_iter (PDict d) = Inr (map PStr (remdups (map fst d)))"
| "py_iter v = Inl TypeError"

text \<open>
  The set comprehension that opens \<open>migrate_post_tags\<close>: the normalised names of the
  item's current tags. An entry that is not an object has no \<open>get\<close>, which raises
  AttributeError.
\<close>

fun current_tag_names :: "builtins \<Rightarrow> pyval list \<Rightarrow> exn + string set" where
  "current_tag_names py [] = Inr {}"
| "current_tag_names py (t # ts) =
     (case t of
        PDict d \<Rightarrow>
          (let n = py_str py (case map_of d ''name'' of None \<Rightarrow> PStr [] | Some v \<Rightarrow> v) in
           case current_tag_names py ts of
             Inl e \<Rightarrow> Inl e
           | Inr names \<Rightarrow> Inr (if strip n \<noteq> [] then insert (normalize_name n) names else names))
      | _ \<Rightarrow> Inl AttributeError)"

text \<open>The local variables of the loop of \<open>migrate_post_tags\<close>.\<close>

record tag_loop =
  current_post_tags :: "string set"
  seen_input_tags :: "string set"
  added_count :: nat
  discovered_count :: nat

text \<open>
  One origin tag: its canonical name, or \<open>None\<close> when the loop skips the tag
  (\<open>continue\<close>), or the AttributeError of an entry that is not an object.
\<close>

definition canonical_name_of :: "builtins \<Rightarrow> pyval \<Rightarrow> exn + string option" where
  "canonical_name_of py oxi_tag =
     (case oxi_tag of
        PDict d \<Rightarrow>
          (case py_or (py_get d ''names'') (PList []) of
             PList names \<Rightarrow>
               (case names of
                  [] \<Rightarrow> Inr None
                | first # _ \<Rightarrow>
                    let canonical_name = strip (py_str py first) in
                    if canonical_name = [] then Inr None
                    else Inr (Some (normalize_name canonical_name)))
           | _ \<Rightarrow> Inr None)
      | _ \<Rightarrow> Inl AttributeError)"

definition category_name_of :: "builtins \<Rightarrow> pyval \<Rightarrow> string option" where
  "category_name_of py oxi_tag =
     (case oxi_tag of
        PDict d \<Rightarrow>
          (let category_name = py_get d ''category'' in
           if truthy category_name then Some (py_str py category_name) else None)
      | _ \<Rightarrow> None)"

text \<open>
  The body of the loop after the canonical name is known and new: resolve the category,
  ensure the tag, and attach it to the item unless it is among the item's current tags.
\<close>

definition sync_one_tag ::
  "int \<Rightarrow> string \<Rightarrow> string option \<Rightarrow> tag_loop \<Rightarrow> migrator \<Rightarrow> (exn + tag_loop) \<times> migrator" where
  "sync_one_tag post_id canonical_name category_name l m =
     (case ensure_category category_name m of
        (Inl e, m1) \<Rightarrow> (Inl e, m1)
      | (Inr cat, m1) \<Rightarrow>
          (case ensure_tag canonical_name cat m1 of
             (Inl e, m2) \<Rightarrow> (Inl e, m2)
           | (Inr t, m2) \<Rightarrow>
               if canonical_name \<in> current_post_tags l then (Inr l, m2)
               else if dry_run m2 then
                 (Inr (l\<lparr>added_count := added_count l + 1,
                         current_post_tags := insert canonical_name (current_post_tags l)\<rparr>), m2)
               else
                 (case add_tag_to_post post_id canonical_name (baka m2) of
                    (Inl e, b) \<Rightarrow> (Inl e, m2\<lparr>baka := b\<rparr>)
                  | (Inr (added, status), b) \<Rightarrow>
                      if added then
                        (Inr (l\<lparr>added_count := added_count l + 1,
                                current_post_tags := insert canonical_name (current_post_tags l)\<rparr>),
                         m2\<lparr>baka := b\<rparr>)
                      else if status = 409 then
                        (Inr (l\<lparr>current_post_tags := insert canonical_name (current_post_tags l)\<rparr>),
                         m2\<lparr>baka := b\<rparr>)
                      else (Inr l, m2\<lparr>baka := b\<rparr>))))"

fun migrate_tags_loop ::
  "builtins \<Rightarrow> int \<Rightarrow> pyval list \<Rightarrow> tag_loop \<Rightarrow> migrator \<Rightarrow> (exn + tag_loop) \<times> migrator" where
  "migrate_tags_loop py post_id [] l m = (Inr l, m)"
| "migrate_tags_loop py post_id (oxi_tag # rest) l m =
     (case canonical_name_of py oxi_tag of
        Inl e \<Rightarrow> (Inl e, m)
      | Inr None \<Rightarrow> migrate_tags_loop py post_id rest l m
      | Inr (Some canonical_name) \<Rightarrow>
          if canonical_name \<in> seen_input_tags l then migrate_tags_loop py post_id rest l m
          else
            (case sync_one_tag post_id canonical_name (category_name_of py oxi_tag)
                    (l\<lparr>seen_input_tags := insert canonical_name (seen_input_tags l),
                       discovered_count := discovered_count l + 1\<rparr>) m of
               (Inl e, m') \<Rightarrow> (Inl e, m')
             | (Inr l', m') \<Rightarrow> migrate_tags_loop py post_id rest l' m'))"

text \<open>
  \<open>migrate_post_tags\<close>. Its arguments \<open>post_tags\<close> and \<open>oxi_tags\<close> are decoded values
  that the function iterates over.
\<close>

definition migrate_post_tags ::
  "builtins \<Rightarrow> int \<Rightarrow> pyval \<Rightarrow> pyval \<Rightarrow> migrator \<Rightarrow> (exn + nat \<times> nat) \<times> migrator" where
  "migrate_post_tags py post_id post_tags oxi_tags m =
     (case py_iter post_tags of
        Inl e \<Rightarrow> (Inl e, m)
      | Inr ts \<Rightarrow>
          (case current_tag_names py ts of
             Inl e \<Rightarrow> (Inl e, m)
           | Inr current \<Rightarrow>
               (case py_iter oxi_tags of
                  Inl e \<Rightarrow> (Inl e, m)
                | Inr os \<Rightarrow>
                    (case migrate_tags_loop py post_id os
                            \<lparr>current_post_tags = current, seen_input_tags = {},
                             added_count = 0, discovered_count = 0\<rparr> m of
                       (Inl e, m') \<Rightarrow> (Inl e, m')
                     | (Inr l, m') \<Rightarrow> (Inr (discovered_count l, added_count l), m')))))"

section \<open>Batch Driver: the loop of \<open>main\<close>\<close>

definition is_supported_content_type :: "string \<Rightarrow> bool" where
  "is_supported_content_type content_type =
     (let ct = lower content_type in
      if prefix ''video/'' ct then False else prefix ''image/'' ct)"

definition is_jxl_content_type :: "string \<Rightarrow> bool" where
  "is_jxl_content_type content_type =
     (lower content_type \<in> set [''image/jxl'', ''image/jxlp'', ''image/jxl-sequence''])"

text \<open>
  \<open>int(x)\<close>: a number converts (a finite float is truncated towards zero, NaN raises
  ValueError and an infinity OverflowError), a string converts when \<open>int_of_str\<close> accepts
  it, anything else raises TypeError.
\<close>

fun py_int :: "builtins \<Rightarrow> pyval \<Rightarrow> exn + int" where
  "py_int py (PInt i) = Inr i"
| "py_int py (PBool b) = Inr (if b then 1 else 0)"
| "py_int py (PFloat (Finite r)) = Inr (if r \<ge> 0 then \<lfloor>r\<rfloor> else \<lceil>r\<rceil>)"
| "py_int py (PFloat NaN) = Inl ValueError"
| "py_int py (PFloat x) = Inl OverflowError"
| "py_int py (PStr s) = (case int_of_str py s of None \<Rightarrow> Inl ValueError | Some i \<Rightarrow> Inr i)"
| "py_int py v = Inl TypeError"

text \<open>
  The collaborators of the driver that are outside the script: the paged listing and the
  content of the target catalogue, the JXL decoder, the origin's reverse search and
  \<open>pathlib\<close>. A page number is requested once in a run, so a function of the page number
  models any listing.
\<close>

record env =
  get_posts_page :: "int \<Rightarrow> int \<Rightarrow> exn + pydict"
  get_post_content :: "int \<Rightarrow> exn + string"
  decode_jxl_to_jpeg :: "string \<Rightarrow> exn + string"
  reverse_search :: "string \<Rightarrow> string \<Rightarrow> string \<Rightarrow> exn + pydict"
  path_name :: "string \<Rightarrow> string"
  path_stem :: "string \<Rightarrow> string"
  python :: builtins

record args =
  page_size :: int
  start_page :: int
  max_posts :: int
  max_similar_distance :: pyfloat
  fail_fast :: bool

text \<open>
  The counters of \<open>main\<close>, the migrator, and the lines written to the error stream:
  the identifier of the post and the exception.
\<close>

record driver =
  scanned_total :: nat
  processed_total :: nat
  matched_total :: nat
  exact_matched_total :: nat
  similar_matched_total :: nat
  too_far_similar_total :: nat
  skipped_type_total :: nat
  failed_total :: nat
  discovered_tags_total :: nat
  added_tags_total :: nat
  discovered_sources_total :: nat
  added_sources_total :: nat
  mig :: migrator
  errors :: "(int \<times> exn) list"

text \<open>
  How the loop over a page ends: it ran through the page, \<open>main\<close> returned an exit code,
  or an exception left \<open>main\<close>.
\<close>

datatype outcome = Completed | Exit int | Raised exn

text \<open>
  The statements of the loop body before the \<open>try\<close>: the post's identifier, content
  type, relative path and tags.
\<close>

definition post_header :: "builtins \<Rightarrow> pyval \<Rightarrow> exn + int \<times> string \<times> string \<times> pyval" where
  "post_header py post =
     (case post of
        PDict d \<Rightarrow>
          (case map_of d ''id'' of
             None \<Rightarrow> Inl KeyError
           | Some v \<Rightarrow>
               (case py_int py v of
                  Inl e \<Rightarrow> Inl e
                | Inr post_id \<Rightarrow>
                    Inr (post_id,
                         py_str py (py_or (py_get d ''contentType'') (PStr [])),
                         py_str py (py_or (py_get d ''relativePath'')
                                      (PStr (''post_'' @ str_of py (PInt post_id)))),
                         py_or (py_get d ''tags'') (PList []))))
      | _ \<Rightarrow> Inl TypeError)"

text \<open>What is uploaded to the reverse search: bytes, file name and media type.\<close>

definition upload_of ::
  "env \<Rightarrow> int \<Rightarrow> string \<Rightarrow> string \<Rightarrow> string \<Rightarrow> exn + string \<times> string \<times> string" where
  "upload_of env post_id content_type relative_path original_bytes =
     (let upload_mime = (if content_type \<noteq> [] then content_type
                         else ''application/octet-stream'');
          filename = (if path_name env relative_path \<noteq> [] then path_name env relative_path
                      else ''post_'' @ str_of (python env) (PInt post_id))
      in
      if is_jxl_content_type content_type then
        (case decode_jxl_to_jpeg env original_bytes of
           Inl e \<Rightarrow> Inl e
         | Inr jpeg \<Rightarrow> Inr (jpeg, path_stem env filename @ ''.jpg'', ''image/jpeg''))
      else Inr (original_bytes, filename, upload_mime))"

text \<open>
  The statements after a usable match: the counters by kind, then the tags and the
  sources of the matched post.
\<close>

definition sync_matched ::
  "env \<Rightarrow> int \<Rightarrow> pyval \<Rightarrow> pydict \<Rightarrow> string \<Rightarrow> driver \<Rightarrow> (exn + unit) \<times> driver" where
  "sync_matched env post_id post_tags matched_post match_kind st =
     (let st1 = st\<lparr>matched_total := matched_total st + 1,
                   exact_matched_total :=
                     (if match_kind = ''exact'' then exact_matched_total st + 1
                      else exact_matched_total st),
                   similar_matched_total :=
                     (if match_kind \<noteq> ''exact'' \<and> match_kind = ''similar''
                      then similar_matched_total st + 1 else similar_matched_total st)\<rparr>
      in
      case migrate_post_tags (python env) post_id post_tags
             (py_or (py_get matched_post ''tags'') (PList [])) (mig st1) of
        (Inl e, m1) \<Rightarrow> (Inl e, st1\<lparr>mig := m1\<rparr>)
      | (Inr (discovered, added), m1) \<Rightarrow>
          (let st2 = st1\<lparr>mig := m1,
                         discovered_tags_total := discovered_tags_total st1 + discovered,
                         added_tags_total := added_tags_total st1 + added\<rparr>
           in
           case migrate_post_sources post_id matched_post (mig st2) of
             (Inl e, m2) \<Rightarrow> (Inl e, st2\<lparr>mig := m2\<rparr>)
           | (Inr (discovered_sources, added_sources), m2) \<Rightarrow>
               (Inr (),
                st2\<lparr>mig := m2,
                    discovered_sources_total := discovered_sources_total st2 + discovered_sources,
                    added_sources_total := added_sources_total st2 + added_sources\<rparr>)))"

text \<open>
  The body of the \<open>try\<close>: fetch the content, decode it when it is JXL, search, select
  the match, and synchronise when there is one. A \<open>continue\<close> inside the \<open>try\<close> ends the
  body normally.
\<close>

definition process_post ::
  "env \<Rightarrow> args \<Rightarrow> int \<Rightarrow> string \<Rightarrow> string \<Rightarrow> pyval \<Rightarrow> driver \<Rightarrow> (exn + unit) \<times> driver" where
  "process_post env a post_id content_type relative_path post_tags st =
     (case get_post_content env post_id of
        Inl e \<Rightarrow> (Inl e, st)
      | Inr original_bytes \<Rightarrow>
          (case upload_of env post_id content_type relative_path original_bytes of
             Inl e \<Rightarrow> (Inl e, st)
           | Inr (upload_bytes, filename, upload_mime) \<Rightarrow>
               (case reverse_search env upload_bytes filename upload_mime of
                  Inl e \<Rightarrow> (Inl e, st)
                | Inr reverse_result \<Rightarrow>
                    (case select_reverse_search_match (python env) reverse_result
                            (max_similar_distance a) of
                       Inl e \<Rightarrow> (Inl e, st)
                     | Inr (matched_post, match_kind, match_distance) \<Rightarrow>
                         if matched_post = None \<or> matched_post = Some [] then
                           (Inr (),
                            if match_kind = ''too_far''
                            then st\<lparr>too_far_similar_total := too_far_similar_total st + 1\<rparr>
                            else st)
                         else
                           sync_matched env post_id post_tags (the matched_post) match_kind st))))"

text \<open>
  The loop over the posts of one page. The cap on the number of posts is tested first;
  the header is read outside the \<open>try\<close>, so an exception there leaves \<open>main\<close>; an
  exception of the body is counted and written to the error stream, and ends the run with
  exit code 1 under \<open>--fail-fast\<close>.
\<close>

fun for_posts :: "env \<Rightarrow> args \<Rightarrow> pyval list \<Rightarrow> driver \<Rightarrow> outcome \<times> driver" where
  "for_posts env a [] st = (Completed, st)"
| "for_posts env a (post # rest) st =
     (if max_posts a > 0 \<and> int (scanned_total st) \<ge> max_posts a then (Exit 0, st)
      else
        let st0 = st\<lparr>scanned_total := scanned_total st + 1\<rparr> in
        case post_header (python env) post of
          Inl e \<Rightarrow> (Raised e, st0)
        | Inr (post_id, content_type, relative_path, post_tags) \<Rightarrow>
            if \<not> is_supported_content_type content_type
            then for_posts env a rest (st0\<lparr>skipped_type_total := skipped_type_total st0 + 1\<rparr>)
            else
              (case process_post env a post_id content_type relative_path post_tags
                      (st0\<lparr>processed_total := processed_total st0 + 1\<rparr>) of
                 (Inr u, st2) \<Rightarrow> for_posts env a rest st2
               | (Inl exc, st2) \<Rightarrow>
                   let st3 = st2\<lparr>failed_total := failed_total st2 + 1,
                                 errors := errors st2 @ [(post_id, exc)]\<rparr>
                   in if fail_fast a then (Exit 1, st3) else for_posts env a rest st3))"

text \<open>
  The loop over the pages. It may run for ever when every page is full, so it takes fuel:
  \<open>None\<close> says that the fuel ran out before \<open>main\<close> ended.
\<close>

fun run_pages :: "nat \<Rightarrow> env \<Rightarrow> args \<Rightarrow> int \<Rightarrow> driver \<Rightarrow> (outcome \<times> driver) option" where
  "run_pages 0 env a page st = None"
| "run_pages (Suc fuel) env a page st =
     (case get_posts_page env page (page_size a) of
        Inl e \<Rightarrow> Some (Raised e, st)
      | Inr page_payload \<Rightarrow>
          (case py_or (py_or (py_get page_payload ''items'') (py_get page_payload ''Items''))
                  (PList []) of
             PList items \<Rightarrow>
               if items = [] then Some (Exit 0, st)
               else
                 (case for_posts env a items st of
                    (Completed, st') \<Rightarrow>
                      if int (length items) < page_size a then Some (Exit 0, st')
                      else run_pages fuel env a (page + 1) st'
                  | (Exit c, st') \<Rightarrow> Some (Exit c, st')
                  | (Raised e, st') \<Rightarrow> Some (Raised e, st'))
           | _ \<Rightarrow> Some (Raised (RuntimeError ''Bakabooru posts payload has invalid items''), st)))"

definition initial_driver :: "migrator \<Rightarrow> driver" where
  "initial_driver m =
     \<lparr>scanned_total = 0, processed_total = 0, matched_total = 0, exact_matched_total = 0,
      similar_matched_total = 0, too_far_similar_total = 0, skipped_type_total = 0,
      failed_total = 0, discovered_tags_total = 0, added_tags_total = 0,
      discovered_sources_total = 0, added_sources_total = 0, mig = m, errors = []\<rparr>"

definition main_loop :: "nat \<Rightarrow> env \<Rightarrow> args \<Rightarrow> migrator \<Rightarrow> (outcome \<times> driver) option" where
  "main_loop fuel env a m = run_pages fuel env a (start_page a) (initial_driver m)"

text \<open>
  The posts of a page as the loop of \<open>main\<close> reads them, when the listing answers with
  a list.
\<close>

definition page_items :: "env \<Rightarrow> args \<Rightarrow> int \<Rightarrow> pyval list option" where
  "page_items env a page =
     (case get_posts_page env page (page_size a) of
        Inl e \<Rightarrow> None
      | Inr page_payload \<Rightarrow>
          (case py_or (py_or (py_get page_payload ''items'') (py_get page_payload ''Items''))
                  (PList []) of
             PList items \<Rightarrow> Some items
           | _ \<Rightarrow> None))"

text \<open>
  Names for what the loop of \<open>main\<close> tests and does to its counters: the cap on the
  number of posts is reached; the counters as the \<open>try\<close> of an image post finds them;
  a failure counted and written to the error stream.
\<close>

definition capped :: "args \<Rightarrow> driver \<Rightarrow> bool" where
  "capped a st = (max_posts a > 0 \<and> int (scanned_total st) \<ge> max_posts a)"

definition entered :: "driver \<Rightarrow> driver" where
  "entered st = st\<lparr>scanned_total := scanned_total st + 1,
                     processed_total := processed_total st + 1\<rparr>"

definition failed_with :: "int \<Rightarrow> exn \<Rightarrow> driver \<Rightarrow> driver" where
  "failed_with post_id exc st = st\<lparr>failed_total := failed_total st + 1,
                                     errors := errors st @ [(post_id, exc)]\<rparr>"

section \<open>A reconciliation run\<close>

text \<open>
  \<open>OxibooruClient.get_tag_categories\<close>, from the list \<open>results\<close> of the payload: the
  origin's categories keyed by normalised name, a later entry replacing an earlier one
  with the same key.
\<close>

fun tag_categories_loop ::
  "builtins \<Rightarrow> pyval list \<Rightarrow> (string \<Rightarrow> oxi_category option) \<Rightarrow>
   exn + (string \<Rightarrow> oxi_category option)" where
  "tag_categories_loop py [] mapped = Inr mapped"
| "tag_categories_loop py (item # rest) mapped =
     (case item of
        PDict d \<Rightarrow>
          (let name = strip (py_str py (case map_of d ''name'' of None \<Rightarrow> PStr [] | Some v \<Rightarrow> v)) in
           if name = [] then tag_categories_loop py rest mapped
           else
             (case py_int py (py_or (py_get d ''order'') (PInt 0)) of
                Inl e \<Rightarrow> Inl e
              | Inr ord \<Rightarrow>
                  tag_categories_loop py rest
                    (mapped(normalize_name name \<mapsto>
                       \<lparr>oc_name = name,
                        oc_color = py_str py (py_or (py_get d ''color'') (PStr ''#808080'')),
                        oc_order = ord\<rparr>))))
      | _ \<Rightarrow> Inl AttributeError)"

definition get_tag_categories ::
  "builtins \<Rightarrow> pyval list \<Rightarrow> exn + (string \<Rightarrow> oxi_category option)" where
  "get_tag_categories py results = tag_categories_loop py results (\<lambda>k. None)"

text \<open>
  The two dict comprehensions of \<open>Migrator.__init__\<close>: the catalogue's categories and
  tags by normalised name, a later entry of the listing replacing an earlier one with the
  same key.
\<close>

definition categories_index :: "ManagedCategory list \<Rightarrow> string \<Rightarrow> ManagedCategory option" where
  "categories_index cs = map_of (rev (map (\<lambda>c. (normalize_name (c_name c), c)) cs))"

definition tags_index :: "ManagedTag list \<Rightarrow> string \<Rightarrow> ManagedTag option" where
  "tags_index ts = map_of (rev (map (\<lambda>t. (normalize_name (t_name t), t)) ts))"

definition migrator_init ::
  "bakabooru \<Rightarrow> (string \<Rightarrow> oxi_category option) \<Rightarrow> bool \<Rightarrow> migrator" where
  "migrator_init b oxi dry =
     \<lparr>baka = b, dry_run = dry, oxi_categories = oxi,
      categories_by_name = categories_index (categories b),
      tags_by_name = tags_index (tags b)\<rparr>"

text \<open>
  Modelled from the spec: the listing of the target catalogue gives an item's tags as
  objects with the tag's name (section 6), here the names attached in the catalogue.
\<close>

definition listed_tags :: "bakabooru \<Rightarrow> int \<Rightarrow> pyval" where
  "listed_tags b post_id = PList (map (\<lambda>n. PDict [(''name'', PStr n)]) (post_tag_names b post_id))"

text \<open>
  What \<open>main\<close> does for one matched item, and for the matched items of a run in their
  order: the tags, then the sources. A run is successful when no item raises.
\<close>

definition reconcile_item ::
  "builtins \<Rightarrow> int \<times> pydict \<Rightarrow> migrator \<Rightarrow> (exn + unit) \<times> migrator" where
  "reconcile_item py item m =
     (case item of
        (post_id, matched_post) \<Rightarrow>
          (case migrate_post_tags py post_id (listed_tags (baka m) post_id)
                  (py_or (py_get matched_post ''tags'') (PList [])) m of
             (Inl e, m1) \<Rightarrow> (Inl e, m1)
           | (Inr counts, m1) \<Rightarrow>
               (case migrate_post_sources post_id matched_post m1 of
                  (Inl e, m2) \<Rightarrow> (Inl e, m2)
                | (Inr counts', m2) \<Rightarrow> (Inr (), m2))))"

fun reconcile ::
  "builtins \<Rightarrow> (int \<times> pydict) list \<Rightarrow> migrator \<Rightarrow> (exn + unit) \<times> migrator" where
  "reconcile py [] m = (Inr (), m)"
| "reconcile py (item # items) m =
     (case reconcile_item py item m of
        (Inl e, m1) \<Rightarrow> (Inl e, m1)
      | (Inr u, m1) \<Rightarrow> reconcile py items m1)"

definition reconcile_run ::
  "builtins \<Rightarrow> (string \<Rightarrow> oxi_category option) \<Rightarrow> (int \<times> pydict) list \<Rightarrow> bakabooru \<Rightarrow>
   (exn + unit) \<times> migrator" where
  "reconcile_run py oxi items b = reconcile py items (migrator_init b oxi False)"

section \<open>What a finished reconciliation leaves behind\<close>

text \<open>
  The notions used to state that a second run has nothing to write. The key of a
  category label (\<open>None\<close> for an absent or blank label), the category identifier that the
  index gives for a key, the normalised names of the tags attached to an item, and the
  item's current sources as the client reads them.
\<close>

definition cat_key :: "string option \<Rightarrow> string option" where
  "cat_key category_name =
     (case category_name of
        None \<Rightarrow> None
      | Some cn \<Rightarrow> if cn = [] \<or> strip cn = [] then None else Some (normalize_name cn))"

definition cat_id_of :: "migrator \<Rightarrow> string option \<Rightarrow> int option" where
  "cat_id_of m k = (case k of None \<Rightarrow> None | Some key \<Rightarrow> map_option c_id (categories_by_name m key))"

definition attached :: "bakabooru \<Rightarrow> int \<Rightarrow> string set" where
  "attached b post_id = normalize_name ` {t \<in> set (post_tag_names b post_id). strip t \<noteq> []}"

definition current_sources :: "bakabooru \<Rightarrow> int \<Rightarrow> string list option" where
  "current_sources b post_id =
     (case post_sources b post_id of
        PList payload \<Rightarrow> Some (trimmed (str_items payload))
      | _ \<Rightarrow> None)"

text \<open>
  The indexes of a migrator are coherent when they are the indexes of its catalogue's
  listings and the catalogue's tags have distinct identifiers. The origin's category
  metadata is well formed when each entry stands under the key of its name, as
  \<open>get_tag_categories\<close> builds it.
\<close>

definition coherent :: "migrator \<Rightarrow> bool" where
  "coherent m =
     (categories_by_name m = categories_index (categories (baka m)) \<and>
      tags_by_name m = tags_index (tags (baka m)) \<and>
      distinct (map t_id (tags (baka m))))"

definition wf_oxi :: "(string \<Rightarrow> oxi_category option) \<Rightarrow> bool" where
  "wf_oxi oxi = (\<forall>k s. oxi k = Some s \<longrightarrow> normalize_name (oc_name s) = k)"

text \<open>
  A tag of an item is settled when the index has the tag with the category that its key
  resolves to, that category exists, and the tag is attached to the item. The sources of
  an origin post are settled for an item when each of them is among the item's current
  sources and the read is not refused.
\<close>

definition tag_ok :: "migrator \<Rightarrow> int \<Rightarrow> string \<Rightarrow> string option \<Rightarrow> bool" where
  "tag_ok m post_id n k =
     ((\<exists>t. tags_by_name m n = Some t \<and> category_id t = cat_id_of m k) \<and>
      (\<forall>key. k = Some key \<longrightarrow> categories_by_name m key \<noteq> None) \<and>
      n \<in> attached (baka m) post_id)"

definition src_ok :: "migrator \<Rightarrow> int \<Rightarrow> pydict \<Rightarrow> bool" where
  "src_ok m post_id oxi_post =
     (extract_oxibooru_sources oxi_post = [] \<or>
      (\<not> refuses (baka m) (GetPostSources post_id) \<and>
       (\<exists>cur. current_sources (baka m) post_id = Some cur \<and>
          (\<forall>s\<in>set (extract_oxibooru_sources oxi_post). strip s \<in> strip ` set cur))))"

text \<open>
  What the operations of a run keep: the flags, the origin metadata, what the service
  refuses; the categories in the index stay, the attached tags and the current sources
  of every item only grow.
\<close>

definition frame :: "migrator \<Rightarrow> migrator \<Rightarrow> bool" where
  "frame m m' =
     (dry_run m' = dry_run m \<and> oxi_categories m' = oxi_categories m \<and>
      refuses (baka m') = refuses (baka m) \<and>
      categories_by_name m \<subseteq>\<^sub>m categories_by_name m' \<and>
      (\<forall>q. attached (baka m) q \<subseteq> attached (baka m') q) \<and>
      (\<forall>q cur. current_sources (baka m) q = Some cur \<longrightarrow>
          (\<exists>cur'. current_sources (baka m') q = Some cur' \<and> set cur \<subseteq> set cur')))"

text \<open>
  The tag entries of the matched posts of a run, the canonical name and the category key
  of an entry, and the condition that the origin gives a tag one category: entries with
  the same canonical name have the same category key.
\<close>

definition oxi_tags_of :: "pydict \<Rightarrow> pyval list" where
  "oxi_tags_of matched_post =
     (case py_iter (py_or (py_get matched_post ''tags'') (PList [])) of
        Inl e \<Rightarrow> []
      | Inr os \<Rightarrow> os)"

definition tag_key :: "builtins \<Rightarrow> pyval \<Rightarrow> string option" where
  "tag_key py e = (case canonical_name_of py e of Inr (Some n) \<Rightarrow> Some n | _ \<Rightarrow> None)"

definition category_key :: "builtins \<Rightarrow> pyval \<Rightarrow> string option" where
  "category_key py e = cat_key (category_name_of py e)"

definition consistent_entries :: "builtins \<Rightarrow> pyval list \<Rightarrow> bool" where
  "consistent_entries py es =
     (\<forall>e\<in>set es. \<forall>e'\<in>set es.
        tag_key py e \<noteq> None \<and> tag_key py e = tag_key py e' \<longrightarrow>
        category_key py e = category_key py e')"

definition consistent_categories :: "builtins \<Rightarrow> (int \<times> pydict) list \<Rightarrow> bool" where
  "consistent_categories py items =
     consistent_entries py (concat (map (\<lambda>item. oxi_tags_of (snd item)) items))"

text \<open>
  An item of a run is settled when the tags of its matched post are settled for it (an
  entry without canonical name asks for nothing) and so are the sources.
\<close>

definition entry_ok :: "builtins \<Rightarrow> migrator \<Rightarrow> int \<Rightarrow> pyval \<Rightarrow> bool" where
  "entry_ok py m post_id e =
     (\<not> isl (canonical_name_of py e) \<and>
      (\<forall>n. tag_key py e = Some n \<longrightarrow> tag_ok m post_id n (category_key py e)))"

definition item_ok :: "builtins \<Rightarrow> migrator \<Rightarrow> int \<times> pydict \<Rightarrow> bool" where
  "item_ok py m item =
     (\<not> isl (py_iter (py_or (py_get (snd item) ''tags'') (PList []))) \<and>
      (\<forall>e\<in>set (oxi_tags_of (snd item)). entry_ok py m (fst item) e) \<and>
      src_ok m (fst item) (snd item))"

text \<open>The calls that read and write nothing.\<close>

fun is_read :: "call \<Rightarrow> bool" where
  "is_read (GetPostSources post_id) = True"
| "is_read c = False"

section \<open>Concrete inputs\<close>

text \<open>
  Reverse-search results used as concrete inputs.
\<close>

definition similar_only :: pydict where
  "similar_only =
     [(''exactPost'', PNone),
      (''similarPosts'', PList
         [PStr ''junk'',
          PDict [(''post'', PDict [(''id'', PInt 1)]), (''distance'', PFloat (Finite 0.3))],
          PDict [(''post'', PDict [(''id'', PInt 2)]), (''distance'', PFloat (Finite 0.02))],
          PDict [(''post'', PStr ''x''), (''distance'', PFloat (Finite 0.01))],
          PDict [(''post'', PDict [(''id'', PInt 3)]), (''distance'', PFloat (Finite 0.02))]])]"

definition malformed_only :: pydict where
  "malformed_only =
     [(''exactPost'', PStr ''abc''),
      (''similarPosts'', PList
         [PInt 3,
          PDict [(''post'', PDict [(''id'', PInt 1)]), (''distance'', PStr ''near'')],
          PDict [(''distance'', PFloat (Finite 0.5))]])]"

text \<open>
  Reverse-search results with a candidate whose distance is the integer \<open>10^400\<close>: beside
  a candidate at 0.01, alone, and alone under an \<open>exactPost\<close> that is a string.
\<close>

definition huge_distance :: int where
  "huge_distance = 10 ^ 400"

definition overflow_beside_candidate :: pydict where
  "overflow_beside_candidate =
     [(''similarPosts'', PList
         [PDict [(''post'', PDict [(''id'', PInt 1)]), (''distance'', PFloat (Finite 0.01))],
          PDict [(''post'', PDict [(''id'', PInt 2)]), (''distance'', PInt huge_distance)]])]"

definition overflow_only :: pydict where
  "overflow_only =
     [(''similarPosts'', PList
         [PDict [(''post'', PDict [(''id'', PInt 1)]), (''distance'', PInt huge_distance)]])]"

definition overflow_under_string_exact :: pydict where
  "overflow_under_string_exact =
     [(''exactPost'', PStr ''abc''),
      (''similarPosts'', PList
         [PDict [(''post'', PDict [(''id'', PInt 1)]), (''distance'', PInt huge_distance)]])]"



text \<open>
  Concrete catalogues and migrators: an empty catalogue that refuses nothing, a migrator
  over a catalogue with one tag in category 5, and migrators over a catalogue whose post 1
  has one source, or the same source twice.
\<close>

definition empty_catalogue :: bakabooru where
  "empty_catalogue =
     \<lparr>categories = [], tags = [], post_tag_names = (\<lambda>p. []), post_sources = (\<lambda>p. PList []),
      refuses = (\<lambda>c. False), calls = []\<rparr>"

definition migrator_over :: "bakabooru \<Rightarrow> bool \<Rightarrow> migrator" where
  "migrator_over b dry =
     \<lparr>baka = b, dry_run = dry, oxi_categories = (\<lambda>k. None),
      categories_by_name = (\<lambda>k. None), tags_by_name = (\<lambda>k. None)\<rparr>"

definition cat_tag :: ManagedTag where
  "cat_tag = \<lparr>t_id = 1, t_name = ''cat'', category_id = Some 5\<rparr>"

definition tagged_migrator :: migrator where
  "tagged_migrator =
     (migrator_over (empty_catalogue\<lparr>tags := [cat_tag]\<rparr>) False)
       \<lparr>tags_by_name := [''cat'' \<mapsto> cat_tag]\<rparr>"

definition sourced_migrator :: "string list \<Rightarrow> bool \<Rightarrow> migrator" where
  "sourced_migrator srcs dry =
     migrator_over (empty_catalogue\<lparr>post_sources := (\<lambda>p. PList (map PStr srcs))\<rparr>) dry"

definition a_post :: pydict where
  "a_post = [(''source'', PStr ''http://a'')]"

text \<open>
  A batch of three image posts listed on two pages of size 2, a catalogue whose content
  fetch fails for post 2, and an origin that finds no match; and a listing whose only
  entry has no \<open>id\<close>.
\<close>

definition image_post :: "int \<Rightarrow> pyval" where
  "image_post i = PDict [(''id'', PInt i), (''contentType'', PStr ''image/png'')]"

definition no_builtins :: builtins where
  "no_builtins =
     \<lparr>float_of_str = (\<lambda>s. None), int_of_str = (\<lambda>s. None), str_of = (\<lambda>v. ''?''),
      sort_unordered = (\<lambda>cs. cs)\<rparr>"

definition failing_env :: env where
  "failing_env =
     \<lparr>get_posts_page =
        (\<lambda>page size. if page = 1 then Inr [(''items'', PList [image_post 1, image_post 2])]
                      else if page = 2 then Inr [(''items'', PList [image_post 3])]
                      else Inr [(''items'', PList [])]),
      get_post_content = (\<lambda>post_id. if post_id = 2 then Inl (RuntimeError ''fetch'')
                                      else Inr ''bytes''),
      decode_jxl_to_jpeg = (\<lambda>bytes. Inr bytes),
      reverse_search = (\<lambda>bytes filename mime. Inr []),
      path_name = (\<lambda>p. p), path_stem = (\<lambda>p. p), python = no_builtins\<rparr>"

definition nameless_env :: env where
  "nameless_env =
     failing_env\<lparr>get_posts_page :=
        (\<lambda>page size. Inr [(''items'', PList [PDict [(''contentType'', PStr ''image/png'')]])])\<rparr>"

definition batch_args :: "bool \<Rightarrow> args" where
  "batch_args ff =
     \<lparr>page_size = 2, start_page = 1, max_posts = 0, max_similar_distance = Finite 0.05,
      fail_fast = ff\<rparr>"

text \<open>
  Origin posts whose tag \<open>cat\<close> has the category \<open>a\<close> in one and \<open>b\<close> in the other.
\<close>

definition cat_in :: "string \<Rightarrow> pydict" where
  "cat_in c = [(''tags'', PList [PDict [(''names'', PList [PStr ''cat'']), (''category'', PStr c)]])]"

definition two_items :: "(int \<times> pydict) list" where
  "two_items = [(1, cat_in ''a''), (2, cat_in ''b'')]"

text \<open>
  An origin without category metadata, and two matched items whose origin posts agree on
  the category of the tag \<open>cat\<close>; the first origin post also has a source.
\<close>

definition no_metadata :: "string \<Rightarrow> oxi_category option" where
  "no_metadata = (\<lambda>k. None)"

definition agreeing_items :: "(int \<times> pydict) list" where
  "agreeing_items = [(1, cat_in ''a'' @ [(''source'', PStr ''http://a'')]), (2, cat_in ''a'')]"

section \<open>Verified properties\<close>

subsection \<open>Match Selector\<close>

text \<open>
  The conversion of an integer at the two limits: odd integers just above \<open>2^53\<close> are
  rounded to the even significand, and the integers from \<open>2^1024 - 2^970\<close> on overflow.
\<close>

lemma float_of_int_rounds:
  "float_of_int (2 ^ 53 + 1) = Inr (Finite (2 ^ 53))"
  "float_of_int (2 ^ 53 + 3) = Inr (Finite (2 ^ 53 + 4))"
  "float_of_int (- (2 ^ 53 + 3)) = Inr (Finite (- (2 ^ 53 + 4)))"
  by code_simp+

lemma float_of_int_limit:
  "float_of_int (2 ^ 1024 - 2 ^ 970 - 1) = Inr (Finite (2 ^ 1024 - 2 ^ 971))"
  "float_of_int (2 ^ 1024 - 2 ^ 970) = Inl OverflowError"
  by code_simp+

lemma float_of_int_raises: "float_of_int i = Inl e \<Longrightarrow> e = OverflowError"
  by (simp add: float_of_int_def Let_def split: if_splits)

lemma py_float_raises:
  "py_float py v = Inl e \<Longrightarrow> e = TypeError \<or> e = ValueError \<or> e = OverflowError"
  by (cases v) (auto split: option.splits dest: float_of_int_raises)

lemma float_lt_asym: "float_lt x y \<Longrightarrow> \<not> float_lt y x"
  by (cases x; cases y) auto

lemma float_not_lt_trans:
  "a \<noteq> NaN \<Longrightarrow> b \<noteq> NaN \<Longrightarrow> c \<noteq> NaN \<Longrightarrow> \<not> float_lt b a \<Longrightarrow> \<not> float_lt c b \<Longrightarrow> \<not> float_lt c a"
  by (cases a; cases b; cases c) auto

lemma similar_candidates_wf:
  "\<forall>item\<in>set xs. \<not> distance_overflows py item \<Longrightarrow>
   similar_candidates py xs = Inr (wf_candidates py xs)"
proof (induction xs)
  case Nil
  show ?case by (simp add: wf_candidates_def)
next
  case (Cons item rest)
  then have IH: "similar_candidates py rest = Inr (wf_candidates py rest)" by simp
  from Cons.prems have no: "\<not> distance_overflows py item" by simp
  show ?case
  proof (cases "well_formed py item")
    case True
    then obtain d where d: "item = PDict d"
      by (cases item) (auto simp: well_formed_def)
    with True obtain p where p: "py_get d ''post'' = PDict p"
      by (cases "py_get d ''post''") (auto simp: well_formed_def)
    from True d obtain x where x: "py_float py (py_get d ''distance'') = Inr x"
      by (cases "py_float py (py_get d ''distance'')") (auto simp: well_formed_def)
    note d p x
    with True IH show ?thesis
      by (simp add: wf_candidates_def candidate_distance_def candidate_post_def)
  next
    case False
    with no have "similar_candidates py (item # rest) = similar_candidates py rest"
      by (auto simp: well_formed_def distance_overflows_def
          split: pyval.splits sum.splits dest: py_float_raises)
    with False IH show ?thesis
      by (simp add: wf_candidates_def)
  qed
qed

lemma similar_candidates_overflow:
  "\<exists>item\<in>set xs. distance_overflows py item \<Longrightarrow> similar_candidates py xs = Inl OverflowError"
proof (induction xs)
  case Nil
  then show ?case by simp
next
  case (Cons item rest)
  show ?case
  proof (cases "distance_overflows py item")
    case True
    then show ?thesis
      by (auto simp: distance_overflows_def split: pyval.splits)
  next
    case False
    with Cons.prems have "\<exists>it\<in>set rest. distance_overflows py it" by auto
    from Cons.IH[OF this] have IH: "similar_candidates py rest = Inl OverflowError" .
    show ?thesis
      using py_float_raises
      by (auto simp: IH split: pyval.splits sum.splits)
  qed
qed


lemma py_get_dict_del: "py_get (dict_del k d) k' = (if k' = k then PNone else py_get d k')"
  by (induction d) (auto simp: py_get_def dict_del_def)

lemma select_no_exact:
  assumes "\<not> is_dict (py_get r ''exactPost'')"
  shows "select_reverse_search_match py r m =
     (case py_or (py_get r ''similarPosts'') (PList []) of
        PList xs \<Rightarrow>
          if xs = [] then Inr (None, ''none'', None)
          else
            (case similar_candidates py xs of
               Inl e \<Rightarrow> Inl e
             | Inr cs \<Rightarrow>
                 if cs = [] then Inr (None, ''none'', None)
                 else
                   (case sort_by_distance py cs of
                      (bd, bp) # _ \<Rightarrow>
                        if float_gt bd m then Inr (None, ''too_far'', Some bd)
                        else Inr (Some bp, ''similar'', Some bd)
                    | [] \<Rightarrow> Inl IndexError))
      | _ \<Rightarrow> Inr (None, ''none'', None))"
  using assms
  by (cases "py_get r ''exactPost''") (simp_all add: select_reverse_search_match_def)

lemma insort_by_distance_not_Nil: "insort_by_distance x ys \<noteq> []"
  by (cases ys) auto

lemma stable_sort_Nil_iff: "stable_sort xs = [] \<longleftrightarrow> xs = []"
  by (cases xs) (auto simp: stable_sort_def insort_by_distance_not_Nil)

lemma stable_sort_Cons: "stable_sort (x # xs) = insort_by_distance x (stable_sort xs)"
  by (simp add: stable_sort_def)

lemma hd_insort_by_distance:
  "hd (insort_by_distance x ys) = (if ys = [] \<or> \<not> float_lt (fst (hd ys)) (fst x) then x else hd ys)"
  by (cases ys) auto

lemma first_minimum:
  assumes "\<exists>item\<in>set xs. well_formed py item"
    and "\<forall>item\<in>set xs. well_formed py item \<longrightarrow> candidate_distance py item \<noteq> NaN"
  shows "\<exists>i<length xs. well_formed py (xs ! i) \<and>
           hd (stable_sort (wf_candidates py xs)) = (candidate_distance py (xs ! i), candidate_post (xs ! i)) \<and>
           (\<forall>j<length xs. well_formed py (xs ! j) \<longrightarrow>
               \<not> float_lt (candidate_distance py (xs ! j)) (candidate_distance py (xs ! i))) \<and>
           (\<forall>j<i. well_formed py (xs ! j) \<longrightarrow>
               float_lt (candidate_distance py (xs ! i)) (candidate_distance py (xs ! j)))"
  using assms
proof (induction xs)
  case Nil
  then show ?case by simp
next
  case (Cons item rest)
  from Cons.prems(2) have nn_rest:
    "\<forall>it\<in>set rest. well_formed py it \<longrightarrow> candidate_distance py it \<noteq> NaN" by simp
  show ?case
  proof (cases "\<exists>it\<in>set rest. well_formed py it")
    case False
    with Cons.prems have wf: "well_formed py item" by auto
    from False have "wf_candidates py rest = []" by (simp add: wf_candidates_def)
    with wf have "hd (stable_sort (wf_candidates py (item # rest))) = (candidate_distance py item, candidate_post item)"
      by (simp add: wf_candidates_def stable_sort_def)
    moreover have "\<forall>j<length (item # rest). well_formed py ((item # rest) ! j) \<longrightarrow> j = 0"
      using False by (auto simp: nth_Cons split: nat.splits)
    moreover have "\<not> float_lt (candidate_distance py item) (candidate_distance py item)"
      using float_lt_asym by blast
    ultimately show ?thesis using wf
      by (intro exI[of _ 0]) auto
  next
    case True
    from Cons.IH[OF True nn_rest] obtain i where i: "i < length rest" "well_formed py (rest ! i)"
      "hd (stable_sort (wf_candidates py rest)) = (candidate_distance py (rest ! i), candidate_post (rest ! i))"
      "\<forall>j<length rest. well_formed py (rest ! j) \<longrightarrow>
          \<not> float_lt (candidate_distance py (rest ! j)) (candidate_distance py (rest ! i))"
      "\<forall>j<i. well_formed py (rest ! j) \<longrightarrow>
          float_lt (candidate_distance py (rest ! i)) (candidate_distance py (rest ! j))"
      by blast
    from True have ne: "stable_sort (wf_candidates py rest) \<noteq> []"
      by (auto simp: wf_candidates_def filter_empty_conv stable_sort_Nil_iff)
    show ?thesis
    proof (cases "well_formed py item")
      case False
      then have "wf_candidates py (item # rest) = wf_candidates py rest"
        by (simp add: wf_candidates_def)
      with i False show ?thesis
        by (intro exI[of _ "Suc i"]) (auto simp: nth_Cons less_Suc_eq_0_disj split: nat.splits)
    next
      case wf: True
      have s: "stable_sort (wf_candidates py (item # rest)) =
               insort_by_distance (candidate_distance py item, candidate_post item)
                 (stable_sort (wf_candidates py rest))"
        using wf by (simp add: wf_candidates_def stable_sort_Cons)
      from wf Cons.prems(2) have n0: "candidate_distance py item \<noteq> NaN" by simp
      from i(1,2) nn_rest have ni: "candidate_distance py (rest ! i) \<noteq> NaN" by simp
      show ?thesis
      proof (cases "float_lt (candidate_distance py (rest ! i)) (candidate_distance py item)")
        case False
        with s ne i have h: "hd (stable_sort (wf_candidates py (item # rest))) =
            (candidate_distance py item, candidate_post item)"
          by (simp add: hd_insort_by_distance)
        have m: "\<not> float_lt (candidate_distance py ((item # rest) ! j)) (candidate_distance py item)"
          if j: "j < length (item # rest)" "well_formed py ((item # rest) ! j)" for j
        proof (cases j)
          case 0
          then show ?thesis using float_lt_asym by auto
        next
          case (Suc k)
          with j have k: "k < length rest" "well_formed py (rest ! k)" by simp_all
          with nn_rest have nk: "candidate_distance py (rest ! k) \<noteq> NaN" by simp
          from i(4) k have "\<not> float_lt (candidate_distance py (rest ! k)) (candidate_distance py (rest ! i))"
            by blast
          from float_not_lt_trans[OF n0 ni nk False this] Suc show ?thesis by simp
        qed
        from h m wf show ?thesis
          by (intro exI[of _ 0]) auto
      next
        case True
        with s ne i have h: "hd (stable_sort (wf_candidates py (item # rest))) =
            (candidate_distance py (rest ! i), candidate_post (rest ! i))"
          by (simp add: hd_insort_by_distance)
        from True have "\<not> float_lt (candidate_distance py item) (candidate_distance py (rest ! i))"
          by (rule float_lt_asym)
        with h True i wf show ?thesis
          by (intro exI[of _ "Suc i"]) (auto simp: nth_Cons less_Suc_eq_0_disj split: nat.splits)
      qed
    qed
  qed
qed

lemma wf_candidates_no_nan:
  "\<forall>item\<in>set xs. well_formed py item \<longrightarrow> candidate_distance py item \<noteq> NaN \<Longrightarrow>
   NaN \<notin> set (map fst (wf_candidates py xs))"
  by (auto simp: wf_candidates_def)

text \<open>
  The selection rule, for a result in which no distance overflows and no distance is NaN.
  Without an exact match and with at least one well-formed similar candidate, the
  selector picks the entry \<open>i\<close> with the least distance among the well-formed entries,
  the first such entry on ties (every well-formed entry before it is strictly farther).
  The result is \<open>too_far\<close> with no post when that distance is above the threshold, and
  \<open>similar\<close> with the entry's post otherwise.
\<close>

lemma nearest_candidate_selected:
  assumes "\<not> is_dict (py_get r ''exactPost'')"
    and "py_get r ''similarPosts'' = PList xs"
    and "\<exists>item\<in>set xs. well_formed py item"
    and "\<forall>item\<in>set xs. \<not> distance_overflows py item"
    and "\<forall>item\<in>set xs. well_formed py item \<longrightarrow> candidate_distance py item \<noteq> NaN"
  shows "\<exists>i<length xs. well_formed py (xs ! i) \<and>
           (\<forall>j<length xs. well_formed py (xs ! j) \<longrightarrow>
               \<not> float_lt (candidate_distance py (xs ! j)) (candidate_distance py (xs ! i))) \<and>
           (\<forall>j<i. well_formed py (xs ! j) \<longrightarrow>
               float_lt (candidate_distance py (xs ! i)) (candidate_distance py (xs ! j))) \<and>
           select_reverse_search_match py r m =
             Inr (if float_gt (candidate_distance py (xs ! i)) m
                  then (None, ''too_far'', Some (candidate_distance py (xs ! i)))
                  else (Some (candidate_post (xs ! i)), ''similar'',
                        Some (candidate_distance py (xs ! i))))"
proof -
  from assms(3) have ne: "xs \<noteq> []" by auto
  with assms(2) have or: "py_or (py_get r ''similarPosts'') (PList []) = PList xs"
    by (simp add: py_or_def)
  from assms(3) have cne: "wf_candidates py xs \<noteq> []"
    by (auto simp: wf_candidates_def filter_empty_conv)
  then have "stable_sort (wf_candidates py xs) \<noteq> []"
    by (simp add: stable_sort_Nil_iff)
  then obtain bd bp rest where s: "stable_sort (wf_candidates py xs) = (bd, bp) # rest"
    by (cases "stable_sort (wf_candidates py xs)") auto
  from wf_candidates_no_nan[OF assms(5)]
  have srt: "sort_by_distance py (wf_candidates py xs) = stable_sort (wf_candidates py xs)"
    by (simp add: sort_by_distance_def)
  from first_minimum[OF assms(3) assms(5)] obtain i where i: "i < length xs" "well_formed py (xs ! i)"
    "hd (stable_sort (wf_candidates py xs)) = (candidate_distance py (xs ! i), candidate_post (xs ! i))"
    "\<forall>j<length xs. well_formed py (xs ! j) \<longrightarrow>
        \<not> float_lt (candidate_distance py (xs ! j)) (candidate_distance py (xs ! i))"
    "\<forall>j<i. well_formed py (xs ! j) \<longrightarrow>
        float_lt (candidate_distance py (xs ! i)) (candidate_distance py (xs ! j))"
    by blast
  from s i(3) have "bd = candidate_distance py (xs ! i)" "bp = candidate_post (xs ! i)" by simp_all
  with s or ne cne srt have "select_reverse_search_match py r m =
             Inr (if float_gt (candidate_distance py (xs ! i)) m
                  then (None, ''too_far'', Some (candidate_distance py (xs ! i)))
                  else (Some (candidate_post (xs ! i)), ''similar'',
                        Some (candidate_distance py (xs ! i))))"
    by (simp add: select_no_exact[OF assms(1)] similar_candidates_wf[OF assms(4)])
  with i show ?thesis by blast
qed

text \<open>
  Without an exact match, when the similar-candidate list is absent, not a list, empty, or
  holds only entries that are neither well formed nor overflowing, the result is \<open>none\<close>
  with no post and no distance.
\<close>

lemma no_usable_candidate_is_none:
  assumes "\<not> is_dict (py_get r ''exactPost'')"
    and "\<And>xs. py_get r ''similarPosts'' = PList xs \<Longrightarrow>
           \<forall>item\<in>set xs. \<not> well_formed py item \<and> \<not> distance_overflows py item"
  shows "select_reverse_search_match py r m = Inr (None, ''none'', None)"
proof (cases "py_or (py_get r ''similarPosts'') (PList [])")
  case (PList xs)
  show ?thesis
  proof (cases "xs = []")
    case True
    with PList show ?thesis by (simp add: select_no_exact[OF assms(1)])
  next
    case False
    with PList have sp: "py_get r ''similarPosts'' = PList xs"
      by (auto simp: py_or_def split: if_splits)
    from assms(2)[OF sp] have no: "\<forall>item\<in>set xs. \<not> distance_overflows py item"
      and nw: "wf_candidates py xs = []"
      by (auto simp: wf_candidates_def filter_empty_conv)
    with PList show ?thesis
      by (simp add: select_no_exact[OF assms(1)] similar_candidates_wf[OF no])
  qed
qed (simp_all add: select_no_exact[OF assms(1)])

text \<open>
  Without an exact match, an entry whose distance overflows makes the selector raise
  OverflowError, whatever the other entries are.
\<close>

lemma overflowing_distance_raises:
  assumes "\<not> is_dict (py_get r ''exactPost'')"
    and "py_get r ''similarPosts'' = PList xs"
    and "\<exists>item\<in>set xs. distance_overflows py item"
  shows "select_reverse_search_match py r m = Inl OverflowError"
proof -
  from assms(3) have ne: "xs \<noteq> []" by auto
  with assms(2) have or: "py_or (py_get r ''similarPosts'') (PList []) = PList xs"
    by (simp add: py_or_def)
  with ne show ?thesis
    by (simp add: select_no_exact[OF assms(1)] similar_candidates_overflow[OF assms(3)])
qed

text \<open>
  An \<open>exactPost\<close> that is not an object is treated as absent: the selector returns or
  raises what it does for the same payload without \<open>exactPost\<close>, and what it returns is
  not classified \<open>exact\<close>.
\<close>

lemma non_object_exact_ignored:
  assumes "map_of r ''exactPost'' = Some v" and "\<not> is_dict v"
  shows "select_reverse_search_match py r m =
           select_reverse_search_match py (dict_del ''exactPost'' r) m
       \<and> (\<forall>post kind dist. select_reverse_search_match py r m = Inr (post, kind, dist) \<longrightarrow>
             kind \<noteq> ''exact'')"
proof -
  from assms have ne: "\<not> is_dict (py_get r ''exactPost'')" by (simp add: py_get_def)
  have ne': "\<not> is_dict (py_get (dict_del ''exactPost'' r) ''exactPost'')"
    by (simp add: py_get_dict_del)
  have "select_reverse_search_match py r m =
           select_reverse_search_match py (dict_del ''exactPost'' r) m"
    by (simp add: select_no_exact[OF ne] select_no_exact[OF ne'] py_get_dict_del)
  moreover have "\<forall>post kind dist. select_reverse_search_match py r m = Inr (post, kind, dist) \<longrightarrow>
             kind \<noteq> ''exact''"
    by (auto simp: select_no_exact[OF ne] split: pyval.splits list.splits sum.splits if_splits)
  ultimately show ?thesis by blast
qed


lemma float_of_huge_int: "float_of_int huge_distance = Inl OverflowError"
  by code_simp

text \<open>
  Claim C4. When the \<open>exactPost\<close> of a reverse-search result is an object, the selector
  returns that post, classified \<open>exact\<close>, with distance 0.0, whatever else the result
  holds: the similar candidates are not looked at.
\<close>

theorem exact_match_wins:
  assumes "py_get reverse_result ''exactPost'' = PDict exact"
  shows "select_reverse_search_match py reverse_result threshold =
           Inr (Some exact, ''exact'', Some (Finite 0))"
  using assms by (simp add: select_reverse_search_match_def)

text \<open>
  Claim C4 at a result with an exact post and a similar candidate at distance 0.
\<close>

theorem exact_match_wins_witness:
  "py_get [(''exactPost'', PDict [(''id'', PInt 7)]),
           (''similarPosts'', PList [PDict [(''post'', PDict [(''id'', PInt 9)]),
                                           (''distance'', PFloat (Finite 0))]])] ''exactPost''
     = PDict [(''id'', PInt 7)] \<and>
   select_reverse_search_match no_builtins
     [(''exactPost'', PDict [(''id'', PInt 7)]),
      (''similarPosts'', PList [PDict [(''post'', PDict [(''id'', PInt 9)]),
                                      (''distance'', PFloat (Finite 0))]])] (Finite 0.05)
     = Inr (Some [(''id'', PInt 7)], ''exact'', Some (Finite 0))"
  using exact_match_wins [of "[(''exactPost'', PDict [(''id'', PInt 7)]),
      (''similarPosts'', PList [PDict [(''post'', PDict [(''id'', PInt 9)]),
                                      (''distance'', PFloat (Finite 0))]])]" "[(''id'', PInt 7)]"
      no_builtins "Finite 0.05"]
  by (simp add: py_get_def)

text \<open>
  Claim C5 at a result without exact match whose similar candidates are a well-formed
  entry at distance 0.01 and an entry whose distance is the integer \<open>10^400\<close>. The
  conversion of the second distance raises OverflowError, which the handler of the loop
  does not catch: the selector raises, under every threshold, where the claim has it
  select the first entry.
\<close>

theorem overflow_beside_candidate_raises:
  "well_formed py
     (PDict [(''post'', PDict [(''id'', PInt 1)]), (''distance'', PFloat (Finite 0.01))]) \<and>
   select_reverse_search_match py overflow_beside_candidate threshold = Inl OverflowError"
  by (simp add: well_formed_def select_reverse_search_match_def overflow_beside_candidate_def
      py_get_def py_or_def float_of_huge_int)

text \<open>
  Claim C6 at a result without exact match whose only similar candidate has the integer
  \<open>10^400\<close> as its distance. The entry is not well formed, since its distance does not
  convert, and the selector raises OverflowError where the claim has it answer \<open>none\<close>.
\<close>

theorem overflow_only_raises:
  "\<not> well_formed py
       (PDict [(''post'', PDict [(''id'', PInt 1)]), (''distance'', PInt huge_distance)]) \<and>
   select_reverse_search_match py overflow_only threshold = Inl OverflowError"
  by (simp add: well_formed_def select_reverse_search_match_def overflow_only_def
      py_get_def py_or_def float_of_huge_int)

text \<open>
  Claim C10 at a result whose \<open>exactPost\<close> is a string and whose only similar candidate
  has the integer \<open>10^400\<close> as its distance. The string is not taken for an exact match,
  and the selector raises OverflowError, as it does for the same result without
  \<open>exactPost\<close>, where the claim has it return \<open>none\<close> without raising.
\<close>

theorem string_exact_overflow_raises:
  "select_reverse_search_match py overflow_under_string_exact threshold = Inl OverflowError \<and>
   select_reverse_search_match py (dict_del ''exactPost'' overflow_under_string_exact) threshold =
     Inl OverflowError"
  by (simp add: select_reverse_search_match_def overflow_under_string_exact_def dict_del_def
      py_get_def py_or_def float_of_huge_int)

text \<open>
  The selection rule at a result with a malformed entry, a far candidate and two
  candidates tied at 0.02: the first of the two is chosen under the threshold 0.05, and
  the result is too far under the threshold 0.01. With a NaN between 0.5 and 0.01 the
  sort leaves the candidates as they are and 0.5 is taken for the least distance.
\<close>

lemma nearest_candidate_selected_at_similar_only:
  "select_reverse_search_match no_builtins similar_only (Finite 0.05) =
     Inr (Some [(''id'', PInt 2)], ''similar'', Some (Finite 0.02)) \<and>
   select_reverse_search_match no_builtins similar_only (Finite 0.01) =
     Inr (None, ''too_far'', Some (Finite 0.02))"
  by (simp add: select_reverse_search_match_def similar_only_def py_get_def py_or_def
      sort_by_distance_def stable_sort_def float_gt_def)

lemma nan_between_candidates:
  "select_reverse_search_match py
     [(''similarPosts'', PList
         [PDict [(''post'', PDict [(''id'', PInt 1)]), (''distance'', PFloat (Finite 0.5))],
          PDict [(''post'', PDict [(''id'', PInt 2)]), (''distance'', PFloat NaN)],
          PDict [(''post'', PDict [(''id'', PInt 3)]), (''distance'', PFloat (Finite 0.01))]])]
     (Finite 0.05) = Inr (None, ''too_far'', Some (Finite 0.5))"
  by (simp add: select_reverse_search_match_def py_get_def py_or_def
      sort_by_distance_def float_gt_def)

subsection \<open>Source Extractor\<close>

lemma dropWhile_rev_dropWhile:
  "dropWhile P (rev (dropWhile P (rev (dropWhile P s)))) = rev (dropWhile P (rev (dropWhile P s)))"
proof (cases "dropWhile P (rev (dropWhile P s))")
  case Nil
  show ?thesis unfolding Nil by simp
next
  case (Cons a u)
  define t where "t = dropWhile P s"
  from Cons have au: "dropWhile P (rev t) = a # u" by (simp add: t_def)
  then have "t \<noteq> []" by auto
  then have nP: "\<not> P (hd t)" unfolding t_def by (rule hd_dropWhile)
  have "rev t = takeWhile P (rev t) @ a # u"
    using takeWhile_dropWhile_id[of P "rev t"] au by simp
  then have "rev (rev t) = rev (takeWhile P (rev t) @ a # u)" by simp
  then have t: "t = rev (a # u) @ rev (takeWhile P (rev t))" by simp
  obtain x xs where x: "rev (a # u) = x # xs" by (cases "rev (a # u)") auto
  with t have "hd t = x" by (metis append_Cons list.sel(1))
  with nP have "\<not> P x" by simp
  with x have "dropWhile P (rev (a # u)) = rev (a # u)" by simp
  with Cons show ?thesis by simp
qed

lemma strip_strip: "strip (strip s) = strip s"
proof -
  have "strip (strip s) = rev (dropWhile is_space (rev (rev (dropWhile is_space (rev (dropWhile is_space s))))))"
    unfolding strip_def by (simp only: dropWhile_rev_dropWhile)
  then show ?thesis by (simp add: strip_def)
qed

lemma extract_loop_keep_first:
  "extract_loop cands seen result = result @ keep_first seen (trimmed cands)"
proof (induction cands arbitrary: seen result)
  case Nil
  show ?case by (simp add: trimmed_def)
next
  case (Cons item rest)
  show ?case
  proof (cases "strip item = []")
    case True
    then show ?thesis by (simp add: Cons.IH trimmed_def)
  next
    case False
    then show ?thesis by (simp add: Cons.IH trimmed_def Let_def)
  qed
qed



lemma keep_first_subseq: "subseq (keep_first seen vs) vs"
  by (induction vs arbitrary: seen) auto


lemma extract_as_keep_first:
  "extract_oxibooru_sources p = keep_first {} (trimmed (source_candidates p))"
  by (simp add: extract_oxibooru_sources_def source_candidates_def extract_loop_keep_first trimmed_def
      split: pyval.splits)




lemma extract_other_shapes: "extract_oxibooru_sources [(''source'', PInt 5)] = [] \<and> extract_oxibooru_sources [] = []"
  by (simp add: extract_oxibooru_sources_def py_get_def)


subsection \<open>Source synchronisation: \<open>migrate_post_sources\<close>\<close>


lemma extract_stripped: "r \<in> set (extract_oxibooru_sources p) \<Longrightarrow> r \<noteq> [] \<and> strip r = r"
proof -
  assume r: "r \<in> set (extract_oxibooru_sources p)"
  have "subseq (extract_oxibooru_sources p) (trimmed (source_candidates p))"
    unfolding extract_as_keep_first by (rule keep_first_subseq)
  then have "set (extract_oxibooru_sources p) \<subseteq> set (trimmed (source_candidates p))"
    by (auto elim: list_emb_set)
  with r show ?thesis by (auto simp: trimmed_def strip_strip)
qed




lemma migrate_post_sources_written:
  assumes "get_post_sources pid (baka m) = (Inr cur, b)"
    and "sources_to_add cur (extract_oxibooru_sources p) \<noteq> []" and "\<not> dry_run m"
  shows "migrate_post_sources pid p m =
           (case set_post_sources pid (cur @ sources_to_add cur (extract_oxibooru_sources p)) b of
              (Inl e, b') \<Rightarrow> (Inl e, m\<lparr>baka := b'\<rparr>)
            | (Inr u, b') \<Rightarrow>
                (Inr (length (extract_oxibooru_sources p),
                      length (sources_to_add cur (extract_oxibooru_sources p))), m\<lparr>baka := b'\<rparr>))"
proof -
  from assms(2) have "extract_oxibooru_sources p \<noteq> []" by (auto simp: sources_to_add_def)
  with assms show ?thesis by (simp add: migrate_post_sources_def Let_def)
qed

lemma get_post_sources_calls:
  "get_post_sources pid b = (r, b') \<Longrightarrow> b' = b\<lparr>calls := calls b @ [GetPostSources pid]\<rparr>"
  by (auto simp: get_post_sources_def Let_def split: if_splits pyval.splits)



lemma extract_a_post: "extract_oxibooru_sources a_post = [''http://a'']"
  by (simp add: extract_oxibooru_sources_def a_post_def py_get_def splitlines_def strip_def
      is_space_def)

lemma get_sourced:
  "get_post_sources 1 (baka (sourced_migrator srcs dry)) =
     (Inr (trimmed srcs),
      (baka (sourced_migrator srcs dry))\<lparr>calls := [GetPostSources 1]\<rparr>)"
proof -
  have "str_items (map PStr srcs) = srcs" by (induction srcs) auto
  then show ?thesis
    by (simp add: get_post_sources_def sourced_migrator_def migrator_over_def empty_catalogue_def)
qed

lemma migrate_sourced:
  "migrate_post_sources 1 a_post (sourced_migrator srcs dry) =
     (let cur = trimmed srcs; to_add = sources_to_add cur [''http://a''];
          b = (baka (sourced_migrator srcs dry))\<lparr>calls := [GetPostSources 1]\<rparr> in
      if to_add = [] then (Inr (1, 0), (sourced_migrator srcs dry)\<lparr>baka := b\<rparr>)
      else if dry then (Inr (1, length to_add), (sourced_migrator srcs dry)\<lparr>baka := b\<rparr>)
      else (Inr (1, length to_add),
            (sourced_migrator srcs dry)\<lparr>baka := b\<lparr>calls := [GetPostSources 1, SetPostSources 1 (cur @ to_add)],
               post_sources := (post_sources b)(1 := PList (map PStr (cur @ to_add)))\<rparr>\<rparr>))"
  by (simp add: migrate_post_sources_def extract_a_post get_sourced Let_def set_post_sources_def)
     (simp add: sourced_migrator_def migrator_over_def empty_catalogue_def)





lemma migrate_post_sources_calls:
  assumes "get_post_sources pid (baka m) = (Inr cur, b)"
    and "sources_to_add cur (extract_oxibooru_sources p) \<noteq> []" and "\<not> dry_run m"
  shows "calls (baka (snd (migrate_post_sources pid p m))) =
           calls (baka m) @ [GetPostSources pid,
              SetPostSources pid (cur @ sources_to_add cur (extract_oxibooru_sources p))]"
  using get_post_sources_calls[OF assms(1)]
  by (simp add: migrate_post_sources_written[OF assms] set_post_sources_def Let_def)

text \<open>
  Claim C8, amended. With no extracted origin source, \<open>migrate_post_sources\<close> returns
  \<open>(0, 0)\<close> and leaves the state as it is: no call is made. With sources to add in a run
  that is not a dry run, the calls it makes are the read and then one replace call whose
  payload is the current sources as read, in their order, followed by the added sources.
  With nothing to add, or in a dry run, the only call is the read.
\<close>

theorem sync_sources_single_replace:
  "(extract_oxibooru_sources p = [] \<longrightarrow> migrate_post_sources pid p m = (Inr (0, 0), m))
 \<and> (\<forall>cur b. get_post_sources pid (baka m) = (Inr cur, b) \<and>
        sources_to_add cur (extract_oxibooru_sources p) \<noteq> [] \<and> \<not> dry_run m \<longrightarrow>
        calls (baka (snd (migrate_post_sources pid p m))) =
          calls (baka m) @ [GetPostSources pid,
             SetPostSources pid (cur @ sources_to_add cur (extract_oxibooru_sources p))])
 \<and> (\<forall>cur b. get_post_sources pid (baka m) = (Inr cur, b) \<and>
        extract_oxibooru_sources p \<noteq> [] \<and>
        (sources_to_add cur (extract_oxibooru_sources p) = [] \<or> dry_run m) \<longrightarrow>
        calls (baka (snd (migrate_post_sources pid p m))) = calls (baka m) @ [GetPostSources pid])"
proof -
  have 1: "extract_oxibooru_sources p = [] \<longrightarrow> migrate_post_sources pid p m = (Inr (0, 0), m)"
    by (simp add: migrate_post_sources_def)
  have 2: "calls (baka (snd (migrate_post_sources pid p m))) =
          calls (baka m) @ [GetPostSources pid,
             SetPostSources pid (cur @ sources_to_add cur (extract_oxibooru_sources p))]"
    if "get_post_sources pid (baka m) = (Inr cur, b)"
      "sources_to_add cur (extract_oxibooru_sources p) \<noteq> []" "\<not> dry_run m" for cur b
    using that by (rule migrate_post_sources_calls)
  have 3: "calls (baka (snd (migrate_post_sources pid p m))) = calls (baka m) @ [GetPostSources pid]"
    if "get_post_sources pid (baka m) = (Inr cur, b)" "extract_oxibooru_sources p \<noteq> []"
      "sources_to_add cur (extract_oxibooru_sources p) = [] \<or> dry_run m" for cur b
    using that get_post_sources_calls[OF that(1)]
    by (auto simp: migrate_post_sources_def Let_def)
  from 1 2 3 show ?thesis by blast
qed

text \<open>
  Claim C8 as stated fails in a dry run: there is a source to add and no replace call is
  made.
\<close>

theorem sync_sources_dry_run_counterexample:
  "sources_to_add [''http://b''] (extract_oxibooru_sources a_post) = [''http://a'']
 \<and> calls (baka (snd (migrate_post_sources 1 a_post (sourced_migrator [''http://b''] True))))
     = [GetPostSources 1]"
  by (simp add: migrate_sourced extract_a_post trimmed_def sources_to_add_def strip_def
      is_space_def Let_def)

text \<open>
  Claim C8, amended, at an origin post without sources, at the item with \<open>http://b\<close> that
  gets \<open>http://a\<close>, and at an item that has the origin source already.
\<close>

theorem sync_sources_single_replace_witness:
  "extract_oxibooru_sources [] = []
 \<and> migrate_post_sources 1 [] (sourced_migrator [''http://b''] False) =
     (Inr (0, 0), sourced_migrator [''http://b''] False)
 \<and> calls (baka (snd (migrate_post_sources 1 a_post (sourced_migrator [''http://b''] False))))
     = [GetPostSources 1, SetPostSources 1 [''http://b'', ''http://a'']]
 \<and> calls (baka (snd (migrate_post_sources 1 a_post (sourced_migrator [''http://a''] False))))
     = [GetPostSources 1]"
proof -
  have e: "extract_oxibooru_sources [] = []"
    by (simp add: extract_oxibooru_sources_def py_get_def)
  have c: "calls (baka (snd (migrate_post_sources 1 a_post (sourced_migrator [''http://b''] False))))
     = [GetPostSources 1, SetPostSources 1 [''http://b'', ''http://a'']]"
    by (simp add: migrate_sourced trimmed_def sources_to_add_def strip_def is_space_def Let_def)
  have n: "calls (baka (snd (migrate_post_sources 1 a_post (sourced_migrator [''http://a''] False))))
     = [GetPostSources 1]"
    by (simp add: migrate_sourced trimmed_def sources_to_add_def strip_def is_space_def Let_def)
  from sync_sources_single_replace [of "[]" 1 "sourced_migrator [''http://b''] False"] e c n
  show ?thesis by blast
qed


subsection \<open>Tag Reconciler: \<open>ensure_tag\<close>\<close>

lemma update_tag_calls:
  "calls (snd (update_tag i n c b)) = calls b @ [UpdateTag i n c]"
  by (simp add: update_tag_def Let_def)

text \<open>
  Claim C2, amended. For a tag found in the index, \<open>ensure_tag\<close> makes no call and
  changes nothing when the requested category equals the tag's category, \<open>None\<close>
  included, and in a dry run. Otherwise it issues one update call carrying the requested
  category, whether that is an identifier or \<open>None\<close>; when the service accepts the call,
  the tag returned and indexed has the requested category.
\<close>

theorem ensure_tag_existing:
  assumes "tags_by_name m (normalize_name n) = Some existing"
  shows "(category_id existing = cat \<longrightarrow> ensure_tag n cat m = (Inr (Some existing), m))
       \<and> (category_id existing \<noteq> cat \<and> dry_run m \<longrightarrow>
            ensure_tag n cat m = (Inr (Some existing), m))
       \<and> (category_id existing \<noteq> cat \<and> \<not> dry_run m \<longrightarrow>
            calls (baka (snd (ensure_tag n cat m))) =
              calls (baka m) @ [UpdateTag (t_id existing) (t_name existing) cat])
       \<and> (category_id existing \<noteq> cat \<and> \<not> dry_run m \<and>
          \<not> refuses (baka m) (UpdateTag (t_id existing) (t_name existing) cat) \<and>
          t_id existing \<in> set (map t_id (tags (baka m))) \<longrightarrow>
            fst (ensure_tag n cat m) =
              Inr (Some \<lparr>t_id = t_id existing, t_name = t_name existing, category_id = cat\<rparr>) \<and>
            tags_by_name (snd (ensure_tag n cat m)) (normalize_name n) =
              Some \<lparr>t_id = t_id existing, t_name = t_name existing, category_id = cat\<rparr>)"
proof -
  have 1: "category_id existing = cat \<longrightarrow> ensure_tag n cat m = (Inr (Some existing), m)"
    using assms by (simp add: ensure_tag_def)
  have 2: "category_id existing \<noteq> cat \<and> dry_run m \<longrightarrow>
            ensure_tag n cat m = (Inr (Some existing), m)"
    using assms by (simp add: ensure_tag_def)
  have 3: "category_id existing \<noteq> cat \<and> \<not> dry_run m \<longrightarrow>
            calls (baka (snd (ensure_tag n cat m))) =
              calls (baka m) @ [UpdateTag (t_id existing) (t_name existing) cat]"
    using assms update_tag_calls[of "t_id existing" "t_name existing" cat "baka m"]
    by (auto simp: ensure_tag_def split: prod.splits sum.splits)
  have 4: "category_id existing \<noteq> cat \<and> \<not> dry_run m \<and>
          \<not> refuses (baka m) (UpdateTag (t_id existing) (t_name existing) cat) \<and>
          t_id existing \<in> set (map t_id (tags (baka m))) \<longrightarrow>
            fst (ensure_tag n cat m) =
              Inr (Some \<lparr>t_id = t_id existing, t_name = t_name existing, category_id = cat\<rparr>) \<and>
            tags_by_name (snd (ensure_tag n cat m)) (normalize_name n) =
              Some \<lparr>t_id = t_id existing, t_name = t_name existing, category_id = cat\<rparr>"
    using assms by (auto simp: ensure_tag_def update_tag_def Let_def)
  from 1 2 3 4 show ?thesis by blast
qed

lemma norm_Cat: "normalize_name ''Cat'' = ''cat''"
  by (simp add: normalize_name_def strip_def is_space_def lower_def lower_char_def is_upper_def)

lemma ensure_tag_clears:
  "ensure_tag ''Cat'' None tagged_migrator =
     (Inr (Some \<lparr>t_id = 1, t_name = ''cat'', category_id = None\<rparr>),
      tagged_migrator
        \<lparr>baka := (baka tagged_migrator)
           \<lparr>calls := [UpdateTag 1 ''cat'' None],
            tags := [\<lparr>t_id = 1, t_name = ''cat'', category_id = None\<rparr>]\<rparr>,
         tags_by_name := [''cat'' \<mapsto> \<lparr>t_id = 1, t_name = ''cat'', category_id = None\<rparr>]\<rparr>)"
  by (simp add: ensure_tag_def norm_Cat tagged_migrator_def cat_tag_def migrator_over_def
      empty_catalogue_def update_tag_def Let_def)

text \<open>
  Claim C2 as stated fails: for a tag in category 5, a request with no category takes the
  update branch and clears the tag's category.
\<close>

theorem ensure_tag_clears_category_counterexample:
  "tags_by_name tagged_migrator (normalize_name ''Cat'') =
     Some \<lparr>t_id = 1, t_name = ''cat'', category_id = Some 5\<rparr>
 \<and> calls (baka (snd (ensure_tag ''Cat'' None tagged_migrator))) = [UpdateTag 1 ''cat'' None]
 \<and> tags (baka (snd (ensure_tag ''Cat'' None tagged_migrator))) =
     [\<lparr>t_id = 1, t_name = ''cat'', category_id = None\<rparr>]"
  by (simp add: ensure_tag_clears)
     (simp add: norm_Cat tagged_migrator_def cat_tag_def migrator_over_def)

text \<open>
  Claim C2, amended, at the tag \<open>cat\<close> of category 5: a request for category 5 changes
  nothing, a request for category 7 issues the update.
\<close>

theorem ensure_tag_existing_witness:
  "tags_by_name tagged_migrator (normalize_name ''Cat'') = Some cat_tag
 \<and> ensure_tag ''Cat'' (Some 5) tagged_migrator = (Inr (Some cat_tag), tagged_migrator)
 \<and> calls (baka (snd (ensure_tag ''Cat'' (Some 7) tagged_migrator))) = [UpdateTag 1 ''cat'' (Some 7)]
 \<and> fst (ensure_tag ''Cat'' (Some 7) tagged_migrator) =
     Inr (Some \<lparr>t_id = 1, t_name = ''cat'', category_id = Some 7\<rparr>)"
proof -
  have h: "tags_by_name tagged_migrator (normalize_name ''Cat'') = Some cat_tag"
    by (simp add: norm_Cat tagged_migrator_def migrator_over_def)
  have c: "category_id cat_tag = Some 5" "t_id cat_tag = 1" "t_name cat_tag = ''cat''"
    by (simp_all add: cat_tag_def)
  have d: "\<not> dry_run tagged_migrator" "calls (baka tagged_migrator) = []"
    "\<not> refuses (baka tagged_migrator) (UpdateTag 1 ''cat'' (Some 7))"
    "t_id cat_tag \<in> set (map t_id (tags (baka tagged_migrator)))"
    by (simp_all add: tagged_migrator_def migrator_over_def empty_catalogue_def)
  from ensure_tag_existing [OF h, of "Some 5"] ensure_tag_existing [OF h, of "Some 7"] h c d
  show ?thesis by simp
qed

subsection \<open>Batch Driver\<close>

lemma sync_matched_keeps:
  "sync_matched env post_id ptags mp kind st = (r, st') \<Longrightarrow>
     failed_total st' = failed_total st \<and> errors st' = errors st \<and>
     scanned_total st' = scanned_total st \<and> processed_total st' = processed_total st \<and>
     skipped_type_total st' = skipped_type_total st"
  by (auto simp: sync_matched_def Let_def split: prod.splits sum.splits)

lemma process_post_keeps:
  "process_post env a post_id ct rp ptags st = (r, st') \<Longrightarrow>
     failed_total st' = failed_total st \<and> errors st' = errors st \<and>
     scanned_total st' = scanned_total st \<and> processed_total st' = processed_total st \<and>
     skipped_type_total st' = skipped_type_total st"
  by (auto simp: process_post_def split: sum.splits prod.splits if_splits dest: sync_matched_keeps)

lemma for_posts_append:
  "for_posts env a pre st = (Completed, st1) \<Longrightarrow>
   for_posts env a (pre @ xs) st = for_posts env a xs st1"
proof (induction pre arbitrary: st)
  case Nil
  then show ?case by simp
next
  case (Cons post pre)
  from Cons.prems show ?case
    by (auto simp: Let_def split: if_splits sum.splits prod.splits intro: Cons.IH)
qed

lemma for_posts_head_failure:
  assumes "\<not> capped a st"
    and "post_header (python env) post = Inr (post_id, ct, rp, ptags)"
    and "is_supported_content_type ct"
    and "process_post env a post_id ct rp ptags (entered st) = (Inl exc, st2)"
  shows "for_posts env a (post # rest) st =
           (if fail_fast a then (Exit 1, failed_with post_id exc st2)
            else for_posts env a rest (failed_with post_id exc st2))"
proof -
  from assms(1) have nc: "(max_posts a > 0 \<and> int (scanned_total st) \<ge> max_posts a) = False"
    by (simp add: capped_def)
  from assms(4) have p: "process_post env a post_id ct rp ptags
      (st\<lparr>scanned_total := scanned_total st + 1, processed_total := processed_total st + 1\<rparr>) =
      (Inl exc, st2)" by (simp add: entered_def)
  from assms(2,3) p show ?thesis
    by (simp add: Let_def nc failed_with_def del: of_nat_Suc)
qed

lemma for_posts_head_success:
  assumes "\<not> capped a st"
    and "post_header (python env) post = Inr (post_id, ct, rp, ptags)"
    and "is_supported_content_type ct"
    and "process_post env a post_id ct rp ptags (entered st) = (Inr u, st2)"
  shows "for_posts env a (post # rest) st = for_posts env a rest st2"
proof -
  from assms(1) have nc: "(max_posts a > 0 \<and> int (scanned_total st) \<ge> max_posts a) = False"
    by (simp add: capped_def)
  from assms(4) have p: "process_post env a post_id ct rp ptags
      (st\<lparr>scanned_total := scanned_total st + 1, processed_total := processed_total st + 1\<rparr>) =
      (Inr u, st2)" by (simp add: entered_def)
  from assms(2,3) p show ?thesis
    by (simp add: Let_def nc del: of_nat_Suc)
qed

lemma for_posts_head_skipped:
  assumes "\<not> capped a st"
    and "post_header (python env) post = Inr (post_id, ct, rp, ptags)"
    and "\<not> is_supported_content_type ct"
  shows "for_posts env a (post # rest) st =
           for_posts env a rest (st\<lparr>scanned_total := scanned_total st + 1,
                                     skipped_type_total := skipped_type_total st + 1\<rparr>)"
proof -
  from assms(1) have nc: "(max_posts a > 0 \<and> int (scanned_total st) \<ge> max_posts a) = False"
    by (simp add: capped_def)
  from assms(2,3) show ?thesis
    by (simp add: Let_def nc del: of_nat_Suc)
qed

lemma for_posts_head_nameless:
  assumes "\<not> capped a st" and "post_header (python env) post = Inl e"
  shows "for_posts env a (post # rest) st = (Raised e, st\<lparr>scanned_total := scanned_total st + 1\<rparr>)"
proof -
  from assms(1) have nc: "(max_posts a > 0 \<and> int (scanned_total st) \<ge> max_posts a) = False"
    by (simp add: capped_def)
  from assms(2) show ?thesis
    by (simp add: Let_def nc del: of_nat_Suc)
qed

lemma for_posts_head_capped:
  "capped a st \<Longrightarrow> for_posts env a (post # rest) st = (Exit 0, st)"
  by (simp add: capped_def)


lemma for_posts_runs_through:
  assumes "\<not> fail_fast a"
    and "max_posts a \<le> 0 \<or> int (scanned_total st) + int (length items) \<le> max_posts a"
    and "\<forall>post\<in>set items. \<not> isl (post_header (python env) post)"
  shows "\<exists>st' es. for_posts env a items st = (Completed, st') \<and>
           scanned_total st' = scanned_total st + length items \<and>
           processed_total st' + skipped_type_total st' =
             processed_total st + skipped_type_total st + length items \<and>
           errors st' = errors st @ es \<and>
           failed_total st' = failed_total st + length es"
  using assms(2,3)
proof (induction items arbitrary: st)
  case Nil
  show ?case by simp
next
  case (Cons post rest)
  from Cons.prems(1) have nc: "\<not> capped a st" by (auto simp: capped_def)
  from Cons.prems(2) obtain post_id ct rp ptags where
    h: "post_header (python env) post = Inr (post_id, ct, rp, ptags)"
    by (cases "post_header (python env) post") auto
  from Cons.prems(2) have hs: "\<forall>p\<in>set rest. \<not> isl (post_header (python env) p)" by simp
  have step: "\<exists>st' es. for_posts env a rest s1 = (Completed, st') \<and>
           scanned_total st' = scanned_total s1 + length rest \<and>
           processed_total st' + skipped_type_total st' =
             processed_total s1 + skipped_type_total s1 + length rest \<and>
           errors st' = errors s1 @ es \<and>
           failed_total st' = failed_total s1 + length es"
    if "scanned_total s1 = scanned_total st + 1" for s1
  proof (rule Cons.IH[OF _ hs])
    from Cons.prems(1) that
    show "max_posts a \<le> 0 \<or> int (scanned_total s1) + int (length rest) \<le> max_posts a"
      by auto
  qed
  show ?case
  proof (cases "is_supported_content_type ct")
    case False
    let ?s1 = "st\<lparr>scanned_total := scanned_total st + 1,
                    skipped_type_total := skipped_type_total st + 1\<rparr>"
    from step[of ?s1] obtain st' es where r: "for_posts env a rest ?s1 = (Completed, st')"
      "scanned_total st' = scanned_total ?s1 + length rest"
      "processed_total st' + skipped_type_total st' =
         processed_total ?s1 + skipped_type_total ?s1 + length rest"
      "errors st' = errors ?s1 @ es" "failed_total st' = failed_total ?s1 + length es"
      by auto
    from r show ?thesis
      by (simp add: for_posts_head_skipped[OF nc h False] del: for_posts.simps)
  next
    case True
    obtain res st2 where p: "process_post env a post_id ct rp ptags (entered st) = (res, st2)"
      by (cases "process_post env a post_id ct rp ptags (entered st)") auto
    from process_post_keeps[OF p]
    have k: "failed_total st2 = failed_total st" "errors st2 = errors st"
      "scanned_total st2 = scanned_total st + 1" "processed_total st2 = processed_total st + 1"
      "skipped_type_total st2 = skipped_type_total st"
      by (simp_all add: entered_def)
    show ?thesis
    proof (cases res)
      case (Inr u)
      from step[of st2] k obtain st' es where r: "for_posts env a rest st2 = (Completed, st')"
        "scanned_total st' = scanned_total st2 + length rest"
        "processed_total st' + skipped_type_total st' =
           processed_total st2 + skipped_type_total st2 + length rest"
        "errors st' = errors st2 @ es" "failed_total st' = failed_total st2 + length es"
        by auto
      from p Inr have p': "process_post env a post_id ct rp ptags (entered st) = (Inr u, st2)"
        by simp
      from r k show ?thesis
        by (simp add: for_posts_head_success[OF nc h True p'] del: for_posts.simps)
    next
      case (Inl exc)
      let ?s3 = "failed_with post_id exc st2"
      from k have "scanned_total ?s3 = scanned_total st + 1" by (simp add: failed_with_def)
      from step[OF this] obtain st' es where r: "for_posts env a rest ?s3 = (Completed, st')"
        "scanned_total st' = scanned_total ?s3 + length rest"
        "processed_total st' + skipped_type_total st' =
           processed_total ?s3 + skipped_type_total ?s3 + length rest"
        "errors st' = errors ?s3 @ es" "failed_total st' = failed_total ?s3 + length es"
        by auto
      from p Inl have p': "process_post env a post_id ct rp ptags (entered st) = (Inl exc, st2)"
        by simp
      have f: "for_posts env a (post # rest) st = (Completed, st')"
        using for_posts_head_failure[OF nc h True p', of rest] assms(1) r(1)
        by (simp del: for_posts.simps)
      from r k have "scanned_total st' = scanned_total st + length (post # rest)"
        "processed_total st' + skipped_type_total st' =
           processed_total st + skipped_type_total st + length (post # rest)"
        "errors st' = errors st @ ((post_id, exc) # es)"
        "failed_total st' = failed_total st + length ((post_id, exc) # es)"
        by (simp_all add: failed_with_def)
      with f show ?thesis by blast
    qed
  qed
qed

lemma for_posts_exit_code:
  "\<not> fail_fast a \<Longrightarrow> for_posts env a items st = (Exit c, st') \<Longrightarrow> c = 0"
  by (induction items arbitrary: st)
     (auto simp: Let_def split: if_splits sum.splits prod.splits)

lemma for_posts_fail_fast:
  "fail_fast a \<Longrightarrow> for_posts env a items st = (out, st') \<Longrightarrow>
     (out = Exit 1 \<and> failed_total st' = failed_total st + 1) \<or>
     (out \<noteq> Exit 1 \<and> (\<forall>c. out = Exit c \<longrightarrow> c = 0) \<and> failed_total st' = failed_total st)"
proof (induction items arbitrary: st)
  case Nil
  then show ?case by auto
next
  case (Cons post rest)
  show ?case
  proof (cases "capped a st")
    case True
    with Cons.prems show ?thesis by (auto simp: for_posts_head_capped simp del: for_posts.simps)
  next
    case nc: False
    show ?thesis
    proof (cases "post_header (python env) post")
      case (Inl e)
      with Cons.prems nc show ?thesis
        by (auto simp: for_posts_head_nameless simp del: for_posts.simps)
    next
      case (Inr hd)
      then obtain post_id ct rp ptags where
        h: "post_header (python env) post = Inr (post_id, ct, rp, ptags)"
        by (cases hd) auto
      show ?thesis
      proof (cases "is_supported_content_type ct")
        case False
        from Cons.prems(2) Cons.IH[OF Cons.prems(1), of "st\<lparr>scanned_total := scanned_total st + 1,
                  skipped_type_total := skipped_type_total st + 1\<rparr>"]
        show ?thesis by (simp add: for_posts_head_skipped[OF nc h False] del: for_posts.simps)
      next
        case True
        obtain res st2 where p: "process_post env a post_id ct rp ptags (entered st) = (res, st2)"
          by (cases "process_post env a post_id ct rp ptags (entered st)") auto
        from process_post_keeps[OF p] have k: "failed_total st2 = failed_total st"
          by (simp add: entered_def)
        show ?thesis
        proof (cases res)
          case (Inl exc)
          with p have p': "process_post env a post_id ct rp ptags (entered st) = (Inl exc, st2)"
            by simp
          from Cons.prems k show ?thesis
            by (auto simp: for_posts_head_failure[OF nc h True p'] failed_with_def
                simp del: for_posts.simps)
        next
          case (Inr u)
          with p have p': "process_post env a post_id ct rp ptags (entered st) = (Inr u, st2)"
            by simp
          from Cons.prems(2) Cons.IH[OF Cons.prems(1), of st2] k show ?thesis
            by (simp add: for_posts_head_success[OF nc h True p'] del: for_posts.simps)
        qed
      qed
    qed
  qed
qed

lemma run_pages_step:
  assumes "page_items env a page = Some its"
  shows "run_pages (Suc fuel) env a page st =
     (if its = [] then Some (Exit 0, st)
      else
        (case for_posts env a its st of
           (Completed, st') \<Rightarrow>
             if int (length its) < page_size a then Some (Exit 0, st')
             else run_pages fuel env a (page + 1) st'
         | (Exit c, st') \<Rightarrow> Some (Exit c, st')
         | (Raised e, st') \<Rightarrow> Some (Raised e, st')))"
  using assms by (auto simp: page_items_def split: sum.splits pyval.splits)

lemma run_pages_exit_code:
  "run_pages fuel env a page st = Some (Exit c, st') \<Longrightarrow>
     (if fail_fast a
      then (c = 1 \<and> failed_total st' = failed_total st + 1) \<or>
           (c = 0 \<and> failed_total st' = failed_total st)
      else c = 0)"
proof (induction fuel arbitrary: page st)
  case 0
  then show ?case by simp
next
  case (Suc fuel)
  show ?case
  proof (cases "page_items env a page")
    case None
    with Suc.prems show ?thesis
      by (auto simp: page_items_def split: sum.splits pyval.splits)
  next
    case (Some its)
    show ?thesis
    proof (cases "its = []")
      case True
      with Suc.prems Some show ?thesis by (simp add: run_pages_step del: run_pages.simps)
    next
      case False
      obtain out s1 where f: "for_posts env a its st = (out, s1)"
        by (cases "for_posts env a its st") auto
      show ?thesis
      proof (cases "fail_fast a")
        case ff: True
        from for_posts_fail_fast[OF ff f]
        have d: "(out = Exit 1 \<and> failed_total s1 = failed_total st + 1) \<or>
           (out \<noteq> Exit 1 \<and> (\<forall>c. out = Exit c \<longrightarrow> c = 0) \<and> failed_total s1 = failed_total st)" .
        show ?thesis
        proof (cases out)
          case Completed
          with d have k: "failed_total s1 = failed_total st" by simp
          show ?thesis
          proof (cases "int (length its) < page_size a")
            case True
            with Suc.prems Some False f Completed k ff show ?thesis
              by (simp add: run_pages_step del: run_pages.simps)
          next
            case nl: False
            with Suc.prems Some False f Completed
            have "run_pages fuel env a (page + 1) s1 = Some (Exit c, st')"
              by (simp add: run_pages_step del: run_pages.simps)
            from Suc.IH[OF this] k ff show ?thesis by simp
          qed
        next
          case (Exit c')
          with Suc.prems Some False f d ff show ?thesis
            by (auto simp: run_pages_step simp del: run_pages.simps)
        next
          case (Raised e)
          with Suc.prems Some False f show ?thesis
            by (simp add: run_pages_step del: run_pages.simps)
        qed
      next
        case nf: False
        show ?thesis
        proof (cases out)
          case Completed
          show ?thesis
          proof (cases "int (length its) < page_size a")
            case True
            with Suc.prems Some False f Completed nf show ?thesis
              by (simp add: run_pages_step del: run_pages.simps)
          next
            case nl: False
            with Suc.prems Some False f Completed
            have "run_pages fuel env a (page + 1) s1 = Some (Exit c, st')"
              by (simp add: run_pages_step del: run_pages.simps)
            from Suc.IH[OF this] nf show ?thesis by simp
          qed
        next
          case (Exit c')
          with f for_posts_exit_code[OF nf] have "c' = 0" by blast
          with Suc.prems Some False f Exit nf show ?thesis
            by (simp add: run_pages_step del: run_pages.simps)
        next
          case (Raised e)
          with Suc.prems Some False f show ?thesis
            by (simp add: run_pages_step del: run_pages.simps)
        qed
      qed
    qed
  qed
qed

lemma run_pages_pages:
  assumes "\<forall>k<n. page_items env a (page + int k) = Some (items k) \<and> items k \<noteq> [] \<and>
             page_size a \<le> int (length (items k)) \<and>
             for_posts env a (items k) (sts k) = (Completed, sts (Suc k))"
    and "page_items env a (page + int n) = Some (items n)"
    and "for_posts env a (items n) (sts n) = (out, st')"
    and "out = Completed \<longrightarrow> items n = [] \<or> int (length (items n)) < page_size a"
  shows "run_pages (Suc n + extra) env a page (sts 0) =
           Some (case out of Completed \<Rightarrow> Exit 0 | Exit c \<Rightarrow> Exit c | Raised e \<Rightarrow> Raised e, st')"
  using assms
proof (induction n arbitrary: page items sts)
  case 0
  then show ?case
    by (cases out) (auto simp: run_pages_step simp del: run_pages.simps)
next
  case (Suc n)
  from Suc.prems(1) have p0: "page_items env a page = Some (items 0)" "items 0 \<noteq> []"
    "page_size a \<le> int (length (items 0))"
    "for_posts env a (items 0) (sts 0) = (Completed, sts (Suc 0))"
    by (metis add.right_neutral of_nat_0 zero_less_Suc)+
  have rest: "\<forall>k<n. page_items env a (page + 1 + int k) = Some (items (Suc k)) \<and> items (Suc k) \<noteq> [] \<and>
             page_size a \<le> int (length (items (Suc k))) \<and>
             for_posts env a (items (Suc k)) (sts (Suc k)) = (Completed, sts (Suc (Suc k)))"
  proof (intro allI impI)
    fix k assume "k < n"
    then have "Suc k < Suc n" by simp
    from Suc.prems(1)[rule_format, OF this]
    show "page_items env a (page + 1 + int k) = Some (items (Suc k)) \<and> items (Suc k) \<noteq> [] \<and>
             page_size a \<le> int (length (items (Suc k))) \<and>
             for_posts env a (items (Suc k)) (sts (Suc k)) = (Completed, sts (Suc (Suc k)))"
      by (simp add: add.assoc)
  qed
  have last: "page_items env a (page + 1 + int n) = Some (items (Suc n))"
    using Suc.prems(2) by (simp add: add.assoc)
  from Suc.IH[of "page + 1" "\<lambda>k. items (Suc k)" "\<lambda>k. sts (Suc k)", OF rest last Suc.prems(3) Suc.prems(4)]
  have "run_pages (Suc n + extra) env a (page + 1) (sts (Suc 0)) =
           Some (case out of Completed \<Rightarrow> Exit 0 | Exit c \<Rightarrow> Exit c | Raised e \<Rightarrow> Raised e, st')" .
  with p0 show ?case
    by (simp add: run_pages_step del: run_pages.simps)
qed


lemma for_posts_no_raise:
  "\<forall>post\<in>set items. \<not> isl (post_header (python env) post) \<Longrightarrow>
   for_posts env a items st = (Raised e, st') \<Longrightarrow> False"
  by (induction items arbitrary: st)
     (auto simp: Let_def split: if_splits sum.splits prod.splits)

lemma run_pages_returns:
  assumes "\<not> fail_fast a"
    and "\<forall>k\<le>n. \<exists>items. page_items env a (page + int k) = Some items \<and>
            (\<forall>post\<in>set items. \<not> isl (post_header (python env) post)) \<and>
            (k < n \<longrightarrow> page_size a \<le> int (length items))"
    and "\<exists>items. page_items env a (page + int n) = Some items \<and> int (length items) < page_size a"
  shows "\<exists>st'. run_pages (Suc n + extra) env a page st = Some (Exit 0, st')"
  using assms(2,3)
proof (induction n arbitrary: page st)
  case 0
  then obtain items where items: "page_items env a page = Some items"
    "\<forall>post\<in>set items. \<not> isl (post_header (python env) post)" "int (length items) < page_size a"
    by auto
  show ?case
  proof (cases "for_posts env a items st")
    case (Pair out st1)
    show ?thesis
    proof (cases out)
      case Completed
      with Pair items show ?thesis
        by (simp add: run_pages_step del: run_pages.simps)
    next
      case (Exit c)
      with Pair for_posts_exit_code[OF assms(1)] have "c = 0" by blast
      with Exit Pair items show ?thesis
        by (simp add: run_pages_step del: run_pages.simps)
    next
      case (Raised e)
      with Pair for_posts_no_raise[OF items(2)] show ?thesis by blast
    qed
  qed
next
  case (Suc n)
  from Suc.prems(1) obtain items where items: "page_items env a page = Some items"
    "\<forall>post\<in>set items. \<not> isl (post_header (python env) post)" "page_size a \<le> int (length items)"
    by (metis add.right_neutral of_nat_0 zero_le zero_less_Suc)
  have next_ok: "\<forall>k\<le>n. \<exists>items. page_items env a (page + 1 + int k) = Some items \<and>
            (\<forall>post\<in>set items. \<not> isl (post_header (python env) post)) \<and>
            (k < n \<longrightarrow> page_size a \<le> int (length items))"
  proof (intro allI impI)
    fix k assume "k \<le> n"
    then have "Suc k \<le> Suc n" by simp
    from Suc.prems(1)[rule_format, OF this]
    show "\<exists>items. page_items env a (page + 1 + int k) = Some items \<and>
            (\<forall>post\<in>set items. \<not> isl (post_header (python env) post)) \<and>
            (k < n \<longrightarrow> page_size a \<le> int (length items))"
      by (simp add: add.assoc)
  qed
  have last_ok: "\<exists>items. page_items env a (page + 1 + int n) = Some items \<and> int (length items) < page_size a"
    using Suc.prems(2) by (simp add: add.assoc)
  show ?case
  proof (cases "for_posts env a items st")
    case (Pair out st1)
    show ?thesis
    proof (cases out)
      case Completed
      from Suc.IH[OF next_ok last_ok, of st1] obtain st' where
        "run_pages (Suc n + extra) env a (page + 1) st1 = Some (Exit 0, st')" by blast
      with Completed Pair items show ?thesis
        by (cases "items = []") (auto simp: run_pages_step simp del: run_pages.simps)
    next
      case (Exit c)
      with Pair for_posts_exit_code[OF assms(1)] have "c = 0" by blast
      with Exit Pair items show ?thesis
        by (cases "items = []") (auto simp: run_pages_step simp del: run_pages.simps)
    next
      case (Raised e)
      with Pair for_posts_no_raise[OF items(2)] show ?thesis by blast
    qed
  qed
qed

text \<open>
  Claim C9, for the items whose identifier, content type, path and tags the loop could
  read; processing an item is the body of the \<open>try\<close> (content fetch, decoding, reverse
  search, match selection, tag and source synchronisation).

  \<^item> When that body raises for an item, at any place in a page whose earlier items ran
    through, the failure count goes up by one and the item's identifier is written with
    the exception to the error stream; without \<open>--fail-fast\<close> the loop goes on with the
    next item, and with it \<open>main\<close> returns 1 at once.
  \<^item> An item whose body returns is followed by the next item, and no failure is counted
    for it; an item that is not an image is counted as skipped and followed by the next
    item.
  \<^item> Without \<open>--fail-fast\<close>, a page that the cap does not cut short is run through: every
    item is scanned, and skipped by type or processed, and each failure is counted and
    logged.
  \<^item> Once the cap on the number of posts is reached, \<open>main\<close> returns 0.
  \<^item> An item whose identifier cannot be read raises out of \<open>main\<close>; it is not counted.
  \<^item> The pages are fetched one after the other, each starting from the counters the
    page before it left, up to the first page that is empty or short, or on which
    \<open>main\<close> returns or raises; the run ends there, with exit code 0 when that page was
    run through.
  \<^item> Without \<open>--fail-fast\<close> every exit code of the run is 0. With it the exit code is 1
    after exactly one counted failure, or 0 after none.
  \<^item> Without \<open>--fail-fast\<close>, when the pages are listed and the identifiers of their items
    can be read, up to a short or empty page, the run does return, with exit code 0,
    given fuel for these pages.
  \<^item> The end of a page leaves the counters as they are.
\<close>

theorem batch_failure_isolation:
  "(\<forall>pre post rest st st1 post_id ct rp ptags exc st2.
      for_posts env a pre st = (Completed, st1) \<and> \<not> capped a st1 \<and>
      post_header (python env) post = Inr (post_id, ct, rp, ptags) \<and>
      is_supported_content_type ct \<and>
      process_post env a post_id ct rp ptags (entered st1) = (Inl exc, st2) \<longrightarrow>
      failed_total st2 = failed_total st1 \<and> errors st2 = errors st1 \<and>
      for_posts env a (pre @ post # rest) st =
        (if fail_fast a then (Exit 1, failed_with post_id exc st2)
         else for_posts env a rest (failed_with post_id exc st2)))
 \<and> (\<forall>pre post rest st st1 post_id ct rp ptags u st2.
      for_posts env a pre st = (Completed, st1) \<and> \<not> capped a st1 \<and>
      post_header (python env) post = Inr (post_id, ct, rp, ptags) \<and>
      is_supported_content_type ct \<and>
      process_post env a post_id ct rp ptags (entered st1) = (Inr u, st2) \<longrightarrow>
      failed_total st2 = failed_total st1 \<and> errors st2 = errors st1 \<and>
      for_posts env a (pre @ post # rest) st = for_posts env a rest st2)
 \<and> (\<forall>pre post rest st st1 post_id ct rp ptags.
      for_posts env a pre st = (Completed, st1) \<and> \<not> capped a st1 \<and>
      post_header (python env) post = Inr (post_id, ct, rp, ptags) \<and>
      \<not> is_supported_content_type ct \<longrightarrow>
      for_posts env a (pre @ post # rest) st =
        for_posts env a rest (st1\<lparr>scanned_total := scanned_total st1 + 1,
                                   skipped_type_total := skipped_type_total st1 + 1\<rparr>))
 \<and> (\<forall>items st.
      \<not> fail_fast a \<and>
      (max_posts a \<le> 0 \<or> int (scanned_total st) + int (length items) \<le> max_posts a) \<and>
      (\<forall>post\<in>set items. \<not> isl (post_header (python env) post)) \<longrightarrow>
      (\<exists>st' es. for_posts env a items st = (Completed, st') \<and>
         scanned_total st' = scanned_total st + length items \<and>
         processed_total st' + skipped_type_total st' =
           processed_total st + skipped_type_total st + length items \<and>
         errors st' = errors st @ es \<and>
         failed_total st' = failed_total st + length es))
 \<and> (\<forall>pre post rest st st1.
      for_posts env a pre st = (Completed, st1) \<and> capped a st1 \<longrightarrow>
      for_posts env a (pre @ post # rest) st = (Exit 0, st1))
 \<and> (\<forall>pre post rest st st1 e.
      for_posts env a pre st = (Completed, st1) \<and> \<not> capped a st1 \<and>
      post_header (python env) post = Inl e \<longrightarrow>
      for_posts env a (pre @ post # rest) st =
        (Raised e, st1\<lparr>scanned_total := scanned_total st1 + 1\<rparr>))
 \<and> (\<forall>n page items sts out st' extra.
      (\<forall>k<n. page_items env a (page + int k) = Some (items k) \<and> items k \<noteq> [] \<and>
         page_size a \<le> int (length (items k)) \<and>
         for_posts env a (items k) (sts k) = (Completed, sts (Suc k))) \<and>
      page_items env a (page + int n) = Some (items n) \<and>
      for_posts env a (items n) (sts n) = (out, st') \<and>
      (out = Completed \<longrightarrow> items n = [] \<or> int (length (items n)) < page_size a) \<longrightarrow>
      run_pages (Suc n + extra) env a page (sts 0) =
        Some (case out of Completed \<Rightarrow> Exit 0 | Exit c \<Rightarrow> Exit c | Raised e \<Rightarrow> Raised e, st'))
 \<and> (\<forall>fuel page st c st'.
      run_pages fuel env a page st = Some (Exit c, st') \<longrightarrow>
      (if fail_fast a
       then (c = 1 \<and> failed_total st' = failed_total st + 1) \<or>
            (c = 0 \<and> failed_total st' = failed_total st)
       else c = 0))
 \<and> (\<not> fail_fast a \<longrightarrow>
      (\<forall>n page st extra.
         (\<forall>k\<le>n. \<exists>items. page_items env a (page + int k) = Some items \<and>
            (\<forall>post\<in>set items. \<not> isl (post_header (python env) post)) \<and>
            (k < n \<longrightarrow> page_size a \<le> int (length items))) \<and>
         (\<exists>items. page_items env a (page + int n) = Some items \<and>
            int (length items) < page_size a) \<longrightarrow>
         (\<exists>st'. run_pages (Suc n + extra) env a page st = Some (Exit 0, st'))))
 \<and> (\<forall>st. for_posts env a [] st = (Completed, st))"
proof (intro conjI allI impI)
  fix pre post rest st st1 post_id ct rp ptags exc st2
  assume h: "for_posts env a pre st = (Completed, st1) \<and> \<not> capped a st1 \<and>
      post_header (python env) post = Inr (post_id, ct, rp, ptags) \<and>
      is_supported_content_type ct \<and>
      process_post env a post_id ct rp ptags (entered st1) = (Inl exc, st2)"
  then have p: "process_post env a post_id ct rp ptags (entered st1) = (Inl exc, st2)" by blast
  from process_post_keeps[OF p]
  show "failed_total st2 = failed_total st1" "errors st2 = errors st1"
    by (simp_all add: entered_def)
  from h have "for_posts env a (post # rest) st1 =
        (if fail_fast a then (Exit 1, failed_with post_id exc st2)
         else for_posts env a rest (failed_with post_id exc st2))"
    by (intro for_posts_head_failure) blast+
  with h show "for_posts env a (pre @ post # rest) st =
        (if fail_fast a then (Exit 1, failed_with post_id exc st2)
         else for_posts env a rest (failed_with post_id exc st2))"
    by (simp add: for_posts_append del: for_posts.simps)
next
  fix pre post rest st st1 post_id ct rp ptags u st2
  assume h: "for_posts env a pre st = (Completed, st1) \<and> \<not> capped a st1 \<and>
      post_header (python env) post = Inr (post_id, ct, rp, ptags) \<and>
      is_supported_content_type ct \<and>
      process_post env a post_id ct rp ptags (entered st1) = (Inr u, st2)"
  then have p: "process_post env a post_id ct rp ptags (entered st1) = (Inr u, st2)" by blast
  from process_post_keeps[OF p]
  show "failed_total st2 = failed_total st1" "errors st2 = errors st1"
    by (simp_all add: entered_def)
  from h have "for_posts env a (post # rest) st1 = for_posts env a rest st2"
    by (intro for_posts_head_success) blast+
  with h show "for_posts env a (pre @ post # rest) st = for_posts env a rest st2"
    by (simp add: for_posts_append del: for_posts.simps)
next
  fix pre post rest st st1 post_id ct rp ptags
  assume h: "for_posts env a pre st = (Completed, st1) \<and> \<not> capped a st1 \<and>
      post_header (python env) post = Inr (post_id, ct, rp, ptags) \<and>
      \<not> is_supported_content_type ct"
  then have "for_posts env a (post # rest) st1 =
        for_posts env a rest (st1\<lparr>scanned_total := scanned_total st1 + 1,
                                   skipped_type_total := skipped_type_total st1 + 1\<rparr>)"
    by (intro for_posts_head_skipped) blast+
  with h show "for_posts env a (pre @ post # rest) st =
        for_posts env a rest (st1\<lparr>scanned_total := scanned_total st1 + 1,
                                   skipped_type_total := skipped_type_total st1 + 1\<rparr>)"
    by (simp add: for_posts_append del: for_posts.simps)
next
  fix items and st :: driver
  assume "\<not> fail_fast a \<and>
      (max_posts a \<le> 0 \<or> int (scanned_total st) + int (length items) \<le> max_posts a) \<and>
      (\<forall>post\<in>set items. \<not> isl (post_header (python env) post))"
  then show "\<exists>st' es. for_posts env a items st = (Completed, st') \<and>
         scanned_total st' = scanned_total st + length items \<and>
         processed_total st' + skipped_type_total st' =
           processed_total st + skipped_type_total st + length items \<and>
         errors st' = errors st @ es \<and>
         failed_total st' = failed_total st + length es"
    by (intro for_posts_runs_through) blast+
next
  fix pre post rest st st1
  assume "for_posts env a pre st = (Completed, st1) \<and> capped a st1"
  then show "for_posts env a (pre @ post # rest) st = (Exit 0, st1)"
    by (simp add: for_posts_append for_posts_head_capped del: for_posts.simps)
next
  fix pre post rest st st1 e
  assume "for_posts env a pre st = (Completed, st1) \<and> \<not> capped a st1 \<and>
      post_header (python env) post = Inl e"
  then show "for_posts env a (pre @ post # rest) st =
        (Raised e, st1\<lparr>scanned_total := scanned_total st1 + 1\<rparr>)"
    by (simp add: for_posts_append for_posts_head_nameless del: for_posts.simps)
next
  fix n page items sts out st' extra
  assume "(\<forall>k<n. page_items env a (page + int k) = Some (items k) \<and> items k \<noteq> [] \<and>
         page_size a \<le> int (length (items k)) \<and>
         for_posts env a (items k) (sts k) = (Completed, sts (Suc k))) \<and>
      page_items env a (page + int n) = Some (items n) \<and>
      for_posts env a (items n) (sts n) = (out, st') \<and>
      (out = Completed \<longrightarrow> items n = [] \<or> int (length (items n)) < page_size a)"
  then show "run_pages (Suc n + extra) env a page (sts 0) =
        Some (case out of Completed \<Rightarrow> Exit 0 | Exit c \<Rightarrow> Exit c | Raised e \<Rightarrow> Raised e, st')"
    using run_pages_pages[of n env a page items sts out st' extra] by blast
next
  fix fuel page st c st'
  assume "run_pages fuel env a page st = Some (Exit c, st')"
  then show "if fail_fast a
       then (c = 1 \<and> failed_total st' = failed_total st + 1) \<or>
            (c = 0 \<and> failed_total st' = failed_total st)
       else c = 0"
    by (rule run_pages_exit_code)
next
  fix n page st extra
  assume "\<not> fail_fast a"
    and "(\<forall>k\<le>n. \<exists>items. page_items env a (page + int k) = Some items \<and>
            (\<forall>post\<in>set items. \<not> isl (post_header (python env) post)) \<and>
            (k < n \<longrightarrow> page_size a \<le> int (length items))) \<and>
         (\<exists>items. page_items env a (page + int n) = Some items \<and>
            int (length items) < page_size a)"
  then show "\<exists>st'. run_pages (Suc n + extra) env a page st = Some (Exit 0, st')"
    using run_pages_returns[of a n env page extra st] by blast
next
  fix st
  show "for_posts env a [] st = (Completed, st)" by simp
qed

lemma header_image_post:
  "post_header no_builtins (image_post i) = Inr (i, ''image/png'', ''post_?'', PList [])"
  by (simp add: image_post_def post_header_def py_or_def py_get_def no_builtins_def)

lemma png_supported: "is_supported_content_type ''image/png''"
  by (simp add: is_supported_content_type_def lower_def lower_char_def is_upper_def)

lemma png_not_jxl: "\<not> is_jxl_content_type ''image/png''"
  by (simp add: is_jxl_content_type_def lower_def lower_char_def is_upper_def)

lemma process_failing:
  "process_post failing_env (batch_args ff) i ''image/png'' ''post_?'' (PList []) st =
     (if i = 2 then (Inl (RuntimeError ''fetch''), st) else (Inr (), st))"
  by (simp add: process_post_def failing_env_def upload_of_def png_not_jxl
      select_reverse_search_match_def py_get_def py_or_def)

lemma batch_args_simps:
  "max_posts (batch_args f) = 0" "fail_fast (batch_args f) = f"
  "page_size (batch_args f) = 2" "start_page (batch_args f) = 1"
  by (simp_all add: batch_args_def)

lemma failing_env_simps:
  "python failing_env = no_builtins"
  "page_items failing_env (batch_args f) 1 = Some [image_post 1, image_post 2]"
  "page_items failing_env (batch_args f) 2 = Some [image_post 3]"
  by (simp_all add: failing_env_def page_items_def py_or_def py_get_def batch_args_simps)

lemma first_page:
  "for_posts failing_env (batch_args ff) [image_post 1, image_post 2] (initial_driver m) =
     (if ff
      then (Exit 1, (initial_driver m)\<lparr>scanned_total := 2, processed_total := 2,
               failed_total := 1, errors := [(2, RuntimeError ''fetch'')]\<rparr>)
      else (Completed, (initial_driver m)\<lparr>scanned_total := 2, processed_total := 2,
               failed_total := 1, errors := [(2, RuntimeError ''fetch'')]\<rparr>))"
  by (simp add: failing_env_simps batch_args_simps header_image_post png_supported
      process_failing Let_def initial_driver_def)

lemma second_page:
  "for_posts failing_env (batch_args False) [image_post 3]
     ((initial_driver m)\<lparr>scanned_total := 2, processed_total := 2,
               failed_total := 1, errors := [(2, RuntimeError ''fetch'')]\<rparr>) =
     (Completed, (initial_driver m)\<lparr>scanned_total := 3, processed_total := 3,
               failed_total := 1, errors := [(2, RuntimeError ''fetch'')]\<rparr>)"
  by (simp add: failing_env_simps batch_args_simps header_image_post png_supported
      process_failing Let_def initial_driver_def)

lemma run_two_pages:
  "main_loop 2 failing_env (batch_args ff) m =
     Some (if ff
           then (Exit 1, (initial_driver m)\<lparr>scanned_total := 2, processed_total := 2,
                    failed_total := 1, errors := [(2, RuntimeError ''fetch'')]\<rparr>)
           else (Exit 0, (initial_driver m)\<lparr>scanned_total := 3, processed_total := 3,
                    failed_total := 1, errors := [(2, RuntimeError ''fetch'')]\<rparr>))"
proof (cases ff)
  case True
  then show ?thesis
    using first_page[of True m]
    by (simp add: main_loop_def numeral_2_eq_2 run_pages_step[OF failing_env_simps(2)]
        batch_args_simps del: run_pages.simps for_posts.simps)
next
  case False
  then show ?thesis
    using first_page[of False m] second_page[of m]
    by (simp add: main_loop_def numeral_2_eq_2 run_pages_step[OF failing_env_simps(2)]
        run_pages_step[OF failing_env_simps(3)]
        batch_args_simps del: run_pages.simps for_posts.simps)
qed

text \<open>
  Claim C9 at a batch of three items on two pages whose second item fails at the content
  fetch. The first item runs through, the body of the second raises, and the loop goes
  on: without \<open>--fail-fast\<close> the second page is fetched, all three items are
  processed, one failure is counted and logged for post 2, and the run exits 0; with
  \<open>--fail-fast\<close> the run exits 1 after the second item.
\<close>

theorem batch_failure_isolation_witness:
  "for_posts failing_env (batch_args False) [image_post 1]
     (initial_driver (migrator_over empty_catalogue False)) =
     (Completed, entered (initial_driver (migrator_over empty_catalogue False)))
 \<and> \<not> capped (batch_args False) (entered (initial_driver (migrator_over empty_catalogue False)))
 \<and> post_header (python failing_env) (image_post 2) = Inr (2, ''image/png'', ''post_?'', PList [])
 \<and> is_supported_content_type ''image/png''
 \<and> process_post failing_env (batch_args False) 2 ''image/png'' ''post_?'' (PList [])
       (entered (entered (initial_driver (migrator_over empty_catalogue False)))) =
     (Inl (RuntimeError ''fetch''),
      entered (entered (initial_driver (migrator_over empty_catalogue False))))
 \<and> for_posts failing_env (batch_args False) ([image_post 1] @ image_post 2 # [])
     (initial_driver (migrator_over empty_catalogue False)) =
     (Completed, failed_with 2 (RuntimeError ''fetch'')
        (entered (entered (initial_driver (migrator_over empty_catalogue False)))))
 \<and> page_items failing_env (batch_args False) 1 = Some [image_post 1, image_post 2]
 \<and> page_items failing_env (batch_args False) 2 = Some [image_post 3]
 \<and> for_posts failing_env (batch_args False) [image_post 3]
       (failed_with 2 (RuntimeError ''fetch'')
          (entered (entered (initial_driver (migrator_over empty_catalogue False))))) =
     (Completed, entered (failed_with 2 (RuntimeError ''fetch'')
          (entered (entered (initial_driver (migrator_over empty_catalogue False))))))
 \<and> main_loop 2 failing_env (batch_args False) (migrator_over empty_catalogue False) =
     Some (Exit 0, entered (failed_with 2 (RuntimeError ''fetch'')
          (entered (entered (initial_driver (migrator_over empty_catalogue False))))))
 \<and> entered (failed_with 2 (RuntimeError ''fetch'')
          (entered (entered (initial_driver (migrator_over empty_catalogue False))))) =
     (initial_driver (migrator_over empty_catalogue False))
        \<lparr>scanned_total := 3, processed_total := 3, failed_total := 1,
         errors := [(2, RuntimeError ''fetch'')]\<rparr>
 \<and> main_loop 2 failing_env (batch_args True) (migrator_over empty_catalogue False) =
     Some (Exit 1, (initial_driver (migrator_over empty_catalogue False))
        \<lparr>scanned_total := 2, processed_total := 2, failed_total := 1,
         errors := [(2, RuntimeError ''fetch'')]\<rparr>)"
proof -
  let ?d = "initial_driver (migrator_over empty_catalogue False)"
  let ?a = "batch_args False"
  let ?d2 = "failed_with 2 (RuntimeError ''fetch'') (entered (entered ?d))"
  note T = batch_failure_isolation [of failing_env ?a]
  have f1: "for_posts failing_env ?a [image_post 1] ?d = (Completed, entered ?d)"
    by (simp add: failing_env_simps batch_args_simps header_image_post png_supported
        process_failing Let_def initial_driver_def entered_def)
  have f2: "\<not> capped ?a (entered ?d)"
    by (simp add: capped_def batch_args_simps)
  have f3: "post_header (python failing_env) (image_post 2) =
      Inr (2, ''image/png'', ''post_?'', PList [])"
    by (simp add: failing_env_simps header_image_post)
  have f5: "process_post failing_env ?a 2 ''image/png'' ''post_?'' (PList [])
       (entered (entered ?d)) = (Inl (RuntimeError ''fetch''), entered (entered ?d))"
    by (simp add: process_failing)
  from T have "\<forall>pre post rest st st1 post_id ct rp ptags exc st2.
      for_posts failing_env ?a pre st = (Completed, st1) \<and>
      \<not> capped ?a st1 \<and>
      post_header (python failing_env) post = Inr (post_id, ct, rp, ptags) \<and>
      is_supported_content_type ct \<and>
      process_post failing_env ?a post_id ct rp ptags (entered st1) =
        (Inl exc, st2) \<longrightarrow>
      failed_total st2 = failed_total st1 \<and> errors st2 = errors st1 \<and>
      for_posts failing_env ?a (pre @ post # rest) st =
        (if fail_fast ?a then (Exit 1, failed_with post_id exc st2)
         else for_posts failing_env ?a rest (failed_with post_id exc st2))"
    by (rule conjunct1)
  from this[rule_format, OF conjI[OF f1 conjI[OF f2 conjI[OF f3 conjI[OF png_supported f5]]]], of "[]"]
  have f6: "for_posts failing_env ?a ([image_post 1] @ image_post 2 # []) ?d = (Completed, ?d2)"
    by (simp add: batch_args_simps)
  have f7: "for_posts failing_env ?a [image_post 3] ?d2 = (Completed, entered ?d2)"
    by (simp add: failing_env_simps batch_args_simps header_image_post png_supported
        process_failing Let_def entered_def)
  let ?items = "\<lambda>k::nat. if k = 0 then [image_post 1, image_post 2] else [image_post 3]"
  let ?sts = "\<lambda>k::nat. if k = 0 then ?d else if k = 1 then ?d2 else entered ?d2"
  from T have pages: "\<forall>n page items sts out st' extra.
      (\<forall>k<n. page_items failing_env ?a (page + int k) = Some (items k) \<and> items k \<noteq> [] \<and>
         page_size ?a \<le> int (length (items k)) \<and>
         for_posts failing_env ?a (items k) (sts k) = (Completed, sts (Suc k))) \<and>
      page_items failing_env ?a (page + int n) = Some (items n) \<and>
      for_posts failing_env ?a (items n) (sts n) = (out, st') \<and>
      (out = Completed \<longrightarrow> items n = [] \<or> int (length (items n)) < page_size ?a) \<longrightarrow>
      run_pages (Suc n + extra) failing_env ?a page (sts 0) =
        Some (case out of Completed \<Rightarrow> Exit 0 | Exit c \<Rightarrow> Exit c | Raised e \<Rightarrow> Raised e, st')"
    by blast
  have hyp: "(\<forall>k<1. page_items failing_env ?a (1 + int k) = Some (?items k) \<and> ?items k \<noteq> [] \<and>
         page_size ?a \<le> int (length (?items k)) \<and>
         for_posts failing_env ?a (?items k) (?sts k) = (Completed, ?sts (Suc k))) \<and>
      page_items failing_env ?a (1 + int 1) = Some (?items 1) \<and>
      for_posts failing_env ?a (?items 1) (?sts 1) = (Completed, entered ?d2) \<and>
      (Completed = Completed \<longrightarrow> ?items 1 = [] \<or> int (length (?items 1)) < page_size ?a)"
    using f6 f7 by (simp add: failing_env_simps batch_args_simps del: for_posts.simps)
  from pages[rule_format, of 1 1 ?items ?sts Completed "entered ?d2" 0, OF hyp]
  have f8: "main_loop 2 failing_env ?a (migrator_over empty_catalogue False) =
      Some (Exit 0, entered ?d2)"
    by (simp add: main_loop_def batch_args_simps numeral_2_eq_2 del: run_pages.simps)
  have f9: "entered ?d2 = ?d\<lparr>scanned_total := 3, processed_total := 3, failed_total := 1,
         errors := [(2, RuntimeError ''fetch'')]\<rparr>"
    by (simp add: entered_def failed_with_def initial_driver_def)
  from f1 f2 f3 png_supported f5 f6 f7 f8 f9 failing_env_simps(2,3)[of False]
    run_two_pages[of True "migrator_over empty_catalogue False"]
  show ?thesis by (simp del: for_posts.simps run_pages.simps)
qed

text \<open>
  Claim C9 as it is stated fails for an item whose identifier cannot be read: it is read
  before the \<open>try\<close>. With \<open>--fail-fast\<close> disabled and a listing whose only entry has no
  \<open>id\<close>, KeyError leaves \<open>main\<close>: the run does not exit 0, no failure is counted and
  nothing is written to the error stream.
\<close>

theorem batch_nameless_item_counterexample:
  "\<not> fail_fast (batch_args False)
 \<and> main_loop 1 nameless_env (batch_args False) (migrator_over empty_catalogue False) =
     Some (Raised KeyError,
           (initial_driver (migrator_over empty_catalogue False))\<lparr>scanned_total := 1\<rparr>)
 \<and> failed_total ((initial_driver (migrator_over empty_catalogue False))\<lparr>scanned_total := 1\<rparr>) = 0
 \<and> errors ((initial_driver (migrator_over empty_catalogue False))\<lparr>scanned_total := 1\<rparr>) = []"
  by (simp add: main_loop_def nameless_env_def failing_env_def batch_args_def py_or_def
      py_get_def post_header_def initial_driver_def Let_def)

subsection \<open>Normalised names and the indexes\<close>

lemma not_upper_lower_char: "\<not> is_upper (lower_char c)"
proof (cases c)
  case (Char b0 b1 b2 b3 b4 b5 b6 b7)
  show ?thesis
    unfolding Char lower_char_def is_upper_def Let_def
    by (cases b0; cases b1; cases b2; cases b3; cases b4; cases b5; cases b6; cases b7; simp)
qed

lemma is_space_lower_char: "is_space (lower_char c) = is_space c"
proof (cases c)
  case (Char b0 b1 b2 b3 b4 b5 b6 b7)
  show ?thesis
    unfolding Char lower_char_def is_upper_def is_space_def Let_def
    by (cases b0; cases b1; cases b2; cases b3; cases b4; cases b5; cases b6; cases b7; simp)
qed


lemma lower_lower: "lower (lower s) = lower s"
proof -
  have "lower_char (lower_char c) = lower_char c" for c
    using not_upper_lower_char[of c] by (simp add: lower_char_def)
  then show ?thesis by (simp add: lower_def)
qed

lemma dropWhile_space_lower:
  "dropWhile is_space (map lower_char s) = map lower_char (dropWhile is_space s)"
  by (induction s) (simp_all add: is_space_lower_char)

lemma strip_lower: "strip (lower s) = lower (strip s)"
proof -
  have "rev (map lower_char (dropWhile is_space s)) = map lower_char (rev (dropWhile is_space s))"
    by (rule rev_map)
  then have "dropWhile is_space (rev (map lower_char (dropWhile is_space s))) =
        map lower_char (dropWhile is_space (rev (dropWhile is_space s)))"
    by (simp only: dropWhile_space_lower)
  then have "rev (dropWhile is_space (rev (map lower_char (dropWhile is_space s)))) =
        map lower_char (rev (dropWhile is_space (rev (dropWhile is_space s))))"
    by (simp only: rev_map)
  then show ?thesis by (simp only: strip_def lower_def dropWhile_space_lower)
qed

lemma normalize_name_idem: "normalize_name (normalize_name s) = normalize_name s"
  by (simp add: normalize_name_def strip_lower strip_strip lower_lower)

lemma normalize_name_strip: "normalize_name (strip s) = normalize_name s"
  by (simp add: normalize_name_def strip_strip)

lemma strip_normalize_name: "strip (normalize_name s) = normalize_name s"
  by (simp add: normalize_name_def strip_lower strip_strip)

lemma normalize_name_Nil: "normalize_name s = [] \<longleftrightarrow> strip s = []"
  by (simp add: normalize_name_def lower_def)

lemma le_fold_max: "(a::int) \<le> fold max xs a"
  by (induction xs arbitrary: a) (auto intro: order_trans[OF max.cobounded2])

lemma mem_le_fold_max: "x \<in> set xs \<Longrightarrow> (x::int) \<le> fold max xs a"
proof (induction xs arbitrary: a)
  case (Cons y ys)
  show ?case
  proof (cases "x = y")
    case True
    have "y \<le> max y a" by simp
    also have "\<dots> \<le> fold max ys (max y a)" by (rule le_fold_max)
    finally show ?thesis using True by simp
  next
    case False
    with Cons show ?thesis by simp
  qed
qed simp

lemma next_id_fresh: "next_id ids \<notin> set ids"
proof
  assume "next_id ids \<in> set ids"
  then have "next_id ids \<le> fold max ids 0" by (rule mem_le_fold_max)
  then show False by (simp add: next_id_def)
qed

lemma categories_index_snoc:
  "categories_index (cs @ [c]) = (categories_index cs)(normalize_name (c_name c) \<mapsto> c)"
  by (simp add: categories_index_def)

lemma tags_index_snoc:
  "tags_index (ts @ [t]) = (tags_index ts)(normalize_name (t_name t) \<mapsto> t)"
  by (simp add: tags_index_def)

lemma tags_index_SomeD:
  "tags_index ts k = Some e \<Longrightarrow> e \<in> set ts \<and> normalize_name (t_name e) = k"
  by (auto simp: tags_index_def dest!: map_of_SomeD)

lemma tags_index_update:
  assumes "distinct (map t_id ts)" and "tags_index ts k = Some e"
    and "t_id u = t_id e" and "t_name u = t_name e"
  shows "tags_index (map (\<lambda>t. if t_id t = t_id e then u else t) ts) = (tags_index ts)(k \<mapsto> u)"
  using assms(1,2)
proof (induction ts rule: rev_induct)
  case Nil
  then show ?case by (simp add: tags_index_def)
next
  case (snoc t ts)
  let ?g = "\<lambda>t. if t_id t = t_id e then u else t"
  from snoc.prems(1) have d: "distinct (map t_id ts)" and nt: "t_id t \<notin> t_id ` set ts" by auto
  show ?case
  proof (cases "t = e")
    case True
    with nt have "\<forall>x\<in>set ts. t_id x \<noteq> t_id e" by (metis imageI)
    then have same: "map ?g ts = ts" by (induction ts) auto
    from snoc.prems(2) True have k: "normalize_name (t_name e) = k"
      using tags_index_SomeD by blast
    from True same k assms(4) show ?thesis
      by (auto simp: tags_index_snoc fun_eq_iff)
  next
    case False
    from snoc.prems(2) have "e \<in> set (ts @ [t])" using tags_index_SomeD by blast
    with False have e: "e \<in> set ts" by simp
    with nt have ne: "t_id t \<noteq> t_id e" by auto
    have kt: "normalize_name (t_name t) \<noteq> k"
    proof
      assume "normalize_name (t_name t) = k"
      with snoc.prems(2) have "t = e" by (simp add: tags_index_snoc)
      with False show False by simp
    qed
    with snoc.prems(2) have "tags_index ts k = Some e" by (simp add: tags_index_snoc)
    from snoc.IH[OF d this] have "tags_index (map ?g ts) = (tags_index ts)(k \<mapsto> u)" .
    with ne kt show ?thesis
      by (auto simp: tags_index_snoc fun_eq_iff)
  qed
qed

subsection \<open>What one run establishes\<close>

lemma frame_refl: "frame m m"
  by (simp add: frame_def)

lemma frame_trans:
  assumes "frame m m'" and "frame m' m''"
  shows "frame m m''"
proof -
  from assms have 1: "dry_run m'' = dry_run m" "oxi_categories m'' = oxi_categories m"
    "refuses (baka m'') = refuses (baka m)"
    by (simp_all add: frame_def)
  from assms have 2: "categories_by_name m \<subseteq>\<^sub>m categories_by_name m''"
    unfolding frame_def by (blast intro: map_le_trans)
  have 3: "attached (baka m) q \<subseteq> attached (baka m'') q" for q
  proof -
    from assms(1) have "attached (baka m) q \<subseteq> attached (baka m') q" by (simp add: frame_def)
    moreover from assms(2) have "attached (baka m') q \<subseteq> attached (baka m'') q"
      by (simp add: frame_def)
    ultimately show ?thesis by (rule subset_trans)
  qed
  have 4: "\<exists>cur''. current_sources (baka m'') q = Some cur'' \<and> set cur \<subseteq> set cur''"
    if "current_sources (baka m) q = Some cur" for q cur
  proof -
    from assms(1) that obtain cur' where c': "current_sources (baka m') q = Some cur'"
      "set cur \<subseteq> set cur'" unfolding frame_def by blast
    from assms(2) c'(1) obtain cur'' where c'': "current_sources (baka m'') q = Some cur''"
      "set cur' \<subseteq> set cur''" unfolding frame_def by blast
    from c'(2) c''(2) have "set cur \<subseteq> set cur''" by (rule subset_trans)
    with c''(1) show ?thesis by blast
  qed
  from 1 2 3 4 show ?thesis unfolding frame_def by blast
qed

lemma frame_calls: "frame m (m\<lparr>baka := (baka m)\<lparr>calls := cs\<rparr>\<rparr>)"
  by (simp add: frame_def attached_def current_sources_def)

lemma cat_id_of_frame:
  assumes "frame m m'" and "\<forall>key. k = Some key \<longrightarrow> categories_by_name m key \<noteq> None"
  shows "cat_id_of m' k = cat_id_of m k"
proof (cases k)
  case None
  then show ?thesis by (simp add: cat_id_of_def)
next
  case (Some key)
  with assms(2) obtain c where c: "categories_by_name m key = Some c" by auto
  from assms(1) have "categories_by_name m \<subseteq>\<^sub>m categories_by_name m'" by (simp add: frame_def)
  with c have "categories_by_name m' key = Some c" by (metis domI map_le_def)
  with c Some show ?thesis by (simp add: cat_id_of_def)
qed

lemma tag_ok_frame:
  assumes "tag_ok m q n k" and "frame m m'" and "tags_by_name m' n = tags_by_name m n"
  shows "tag_ok m' q n k"
proof -
  from assms(1) have c: "\<forall>key. k = Some key \<longrightarrow> categories_by_name m key \<noteq> None"
    by (simp add: tag_ok_def)
  from assms(2) have le: "categories_by_name m \<subseteq>\<^sub>m categories_by_name m'" by (simp add: frame_def)
  have c': "\<forall>key. k = Some key \<longrightarrow> categories_by_name m' key \<noteq> None"
  proof (intro allI impI)
    fix key assume "k = Some key"
    with c obtain x where "categories_by_name m key = Some x" by auto
    with le have "categories_by_name m' key = Some x" by (metis domI map_le_def)
    then show "categories_by_name m' key \<noteq> None" by simp
  qed
  from assms(2) have "attached (baka m) q \<subseteq> attached (baka m') q" by (simp add: frame_def)
  with assms(1) have a: "n \<in> attached (baka m') q" by (auto simp: tag_ok_def)
  from assms(1,3) cat_id_of_frame[OF assms(2) c] c' a show ?thesis
    by (simp add: tag_ok_def)
qed

lemma src_ok_frame:
  assumes "src_ok m q mp" and "frame m m'"
  shows "src_ok m' q mp"
proof (cases "extract_oxibooru_sources mp = []")
  case True
  then show ?thesis by (simp add: src_ok_def)
next
  case False
  with assms(1) obtain cur where cur: "\<not> refuses (baka m) (GetPostSources q)"
    "current_sources (baka m) q = Some cur"
    "\<forall>s\<in>set (extract_oxibooru_sources mp). strip s \<in> strip ` set cur"
    by (auto simp: src_ok_def)
  from assms(2) cur(2) obtain cur' where cur': "current_sources (baka m') q = Some cur'"
    "set cur \<subseteq> set cur'" unfolding frame_def by blast
  from assms(2) cur(1) have r: "\<not> refuses (baka m') (GetPostSources q)" by (simp add: frame_def)
  from cur(3) cur'(2) have "\<forall>s\<in>set (extract_oxibooru_sources mp). strip s \<in> strip ` set cur'"
    by blast
  with r cur'(1) show ?thesis unfolding src_ok_def by blast
qed


lemma create_category_Inr:
  assumes "create_category n col ord b = (Inr created, b')"
  shows "c_name created = n \<and>
         b' = b\<lparr>calls := calls b @ [CreateCategory n col ord],
                 categories := categories b @ [created]\<rparr>"
  using assms by (auto simp: create_category_def Let_def split: if_splits)

lemma ensure_category_effect:
  assumes "ensure_category cn m = (Inr cid, m')" and "\<not> dry_run m" and "coherent m"
    and "wf_oxi (oxi_categories m)"
  shows "coherent m' \<and> frame m m' \<and> tags_by_name m' = tags_by_name m \<and>
         post_sources (baka m') = post_sources (baka m) \<and>
         post_tag_names (baka m') = post_tag_names (baka m) \<and>
         cid = cat_id_of m' (cat_key cn) \<and>
         (\<forall>key. cat_key cn = Some key \<longrightarrow> categories_by_name m' key \<noteq> None)"
proof (cases cn)
  case None
  with assms show ?thesis by (simp add: ensure_category_def cat_key_def cat_id_of_def frame_refl)
next
  case (Some c0)
  note cn = Some
  show ?thesis
  proof (cases "c0 = [] \<or> strip c0 = []")
    case True
    with Some assms show ?thesis
      by (auto simp: ensure_category_def cat_key_def cat_id_of_def frame_refl)
  next
    case False
    with Some have k: "cat_key cn = Some (normalize_name c0)" by (simp add: cat_key_def)
    show ?thesis
    proof (cases "categories_by_name m (normalize_name c0)")
      case (Some c)
      with cn False assms k show ?thesis
        by (auto simp: ensure_category_def cat_id_of_def frame_refl)
    next
      case None
      let ?key = "normalize_name c0"
      let ?dn = "strip (case oxi_categories m ?key of
                           None \<Rightarrow> c0
                         | Some s \<Rightarrow> if oc_name s = [] then c0 else oc_name s)"
      let ?col = "(case oxi_categories m ?key of
                              None \<Rightarrow> ''#808080''
                            | Some s \<Rightarrow> if oc_color s = [] then ''#808080'' else oc_color s)"
      let ?ord = "(case oxi_categories m ?key of None \<Rightarrow> 0 | Some s \<Rightarrow> oc_order s)"
      from None cn False assms(1,2)
      have e: "(case create_category ?dn ?col ?ord (baka m) of
                      (Inl e, b) \<Rightarrow> (Inl e, m\<lparr>baka := b\<rparr>)
                    | (Inr created, b) \<Rightarrow>
                        (Inr (Some (c_id created)),
                         m\<lparr>baka := b,
                           categories_by_name := (categories_by_name m)(?key \<mapsto> created)\<rparr>))
               = (Inr cid, m')"
        by (simp add: ensure_category_def Let_def)
      then obtain created b where cr: "create_category ?dn ?col ?ord (baka m) = (Inr created, b)"
        and r: "cid = Some (c_id created)"
          "m' = m\<lparr>baka := b, categories_by_name := (categories_by_name m)(?key \<mapsto> created)\<rparr>"
        by (auto split: prod.splits sum.splits)
      from create_category_Inr[OF cr] have cn': "c_name created = ?dn"
        and b: "b = (baka m)\<lparr>calls := calls (baka m) @ [CreateCategory ?dn ?col ?ord],
                 categories := categories (baka m) @ [created]\<rparr>" by simp_all
      have dn: "normalize_name ?dn = ?key"
      proof (cases "oxi_categories m ?key")
        case None
        then show ?thesis by (simp add: normalize_name_strip)
      next
        case (Some s)
        with assms(4) have "normalize_name (oc_name s) = ?key" by (simp add: wf_oxi_def)
        with Some show ?thesis by (simp add: normalize_name_strip)
      qed
      from assms(3) have coh: "categories_by_name m = categories_index (categories (baka m))"
        "tags_by_name m = tags_index (tags (baka m))" "distinct (map t_id (tags (baka m)))"
        by (simp_all add: coherent_def)
      have 1: "coherent m'"
        unfolding coherent_def r b using coh cn' dn
        by (simp add: categories_index_snoc)
      have le: "categories_by_name m \<subseteq>\<^sub>m (categories_by_name m)(?key \<mapsto> created)"
        using None by (auto simp: map_le_def)
      have 2: "frame m m'"
        unfolding frame_def r b using le
        by (simp add: attached_def current_sources_def)
      have 3: "tags_by_name m' = tags_by_name m" "post_sources (baka m') = post_sources (baka m)"
        "post_tag_names (baka m') = post_tag_names (baka m)"
        unfolding r b by simp_all
      have 4: "cid = cat_id_of m' (cat_key cn)"
        unfolding r k by (simp add: cat_id_of_def)
      have 5: "\<forall>key. cat_key cn = Some key \<longrightarrow> categories_by_name m' key \<noteq> None"
        unfolding r k by simp
      from 1 2 3 4 5 show ?thesis by blast
    qed
  qed
qed


lemma update_tag_Inr:
  assumes "update_tag i n c b = (Inr updated, b')"
  shows "updated = \<lparr>t_id = i, t_name = n, category_id = c\<rparr> \<and>
         b' = b\<lparr>calls := calls b @ [UpdateTag i n c],
                 tags := map (\<lambda>t. if t_id t = i then updated else t) (tags b)\<rparr>"
  using assms by (auto simp: update_tag_def Let_def split: if_splits)

lemma create_tag_Inr:
  assumes "create_tag n c b = (Inr created, b')"
  shows "created = \<lparr>t_id = next_id (map t_id (tags b)), t_name = n, category_id = c\<rparr> \<and>
         b' = b\<lparr>calls := calls b @ [CreateTag n c], tags := tags b @ [created]\<rparr>"
  using assms by (auto simp: create_tag_def Let_def split: if_splits)

lemma ensure_tag_effect:
  assumes "ensure_tag n cid m = (Inr r, m')" and "\<not> dry_run m" and "coherent m"
    and "normalize_name n = n"
  shows "coherent m' \<and> frame m m' \<and> categories_by_name m' = categories_by_name m \<and>
         post_sources (baka m') = post_sources (baka m) \<and>
         post_tag_names (baka m') = post_tag_names (baka m) \<and>
         (\<forall>n'. n' \<noteq> n \<longrightarrow> tags_by_name m' n' = tags_by_name m n') \<and>
         (\<exists>t. tags_by_name m' n = Some t \<and> category_id t = cid)"
proof -
  from assms(3) have coh: "categories_by_name m = categories_index (categories (baka m))"
    "tags_by_name m = tags_index (tags (baka m))" "distinct (map t_id (tags (baka m)))"
    by (simp_all add: coherent_def)
  show ?thesis
  proof (cases "tags_by_name m n")
    case None
    with assms(1,2,4)
    have "(case create_tag n cid (baka m) of
               (Inl e, b) \<Rightarrow> (Inl e, m\<lparr>baka := b\<rparr>)
             | (Inr created, b) \<Rightarrow>
                 (Inr (Some created),
                  m\<lparr>baka := b, tags_by_name := (tags_by_name m)(n \<mapsto> created)\<rparr>)) = (Inr r, m')"
      by (simp add: ensure_tag_def)
    then obtain created b where cr: "create_tag n cid (baka m) = (Inr created, b)"
      and m': "m' = m\<lparr>baka := b, tags_by_name := (tags_by_name m)(n \<mapsto> created)\<rparr>"
      by (auto split: prod.splits sum.splits)
    from create_tag_Inr[OF cr]
    have c: "created = \<lparr>t_id = next_id (map t_id (tags (baka m))), t_name = n, category_id = cid\<rparr>"
      and b: "b = (baka m)\<lparr>calls := calls (baka m) @ [CreateTag n cid],
                             tags := tags (baka m) @ [created]\<rparr>" by simp_all
    from c have cf: "t_id created = next_id (map t_id (tags (baka m)))" "t_name created = n"
      "category_id created = cid" by simp_all
    have fresh: "t_id created \<notin> set (map t_id (tags (baka m)))"
      unfolding cf by (rule next_id_fresh)
    have 1: "coherent m'"
      unfolding coherent_def m' b using coh cf(2) fresh assms(4)
      by (simp add: tags_index_snoc)
    have 2: "frame m m'"
      unfolding frame_def m' b by (simp add: attached_def current_sources_def)
    have 3: "categories_by_name m' = categories_by_name m"
      "post_sources (baka m') = post_sources (baka m)"
      "post_tag_names (baka m') = post_tag_names (baka m)"
      "\<forall>n'. n' \<noteq> n \<longrightarrow> tags_by_name m' n' = tags_by_name m n'"
      unfolding m' b by simp_all
    have 4: "\<exists>t. tags_by_name m' n = Some t \<and> category_id t = cid"
      unfolding m' using cf(3) by simp
    from 1 2 3 4 show ?thesis by blast
  next
    case (Some existing)
    show ?thesis
    proof (cases "category_id existing = cid")
      case True
      with Some assms(1,4) have "m' = m" by (simp add: ensure_tag_def)
      with Some True assms(3) show ?thesis by (simp add: frame_refl)
    next
      case False
      with Some assms(1,2,4)
      have "(case update_tag (t_id existing) (t_name existing) cid (baka m) of
                 (Inl e, b) \<Rightarrow> (Inl e, m\<lparr>baka := b\<rparr>)
               | (Inr updated, b) \<Rightarrow>
                   (Inr (Some updated),
                    m\<lparr>baka := b, tags_by_name := (tags_by_name m)(n \<mapsto> updated)\<rparr>)) = (Inr r, m')"
        by (simp add: ensure_tag_def)
      then obtain updated b where up: "update_tag (t_id existing) (t_name existing) cid (baka m) = (Inr updated, b)"
        and m': "m' = m\<lparr>baka := b, tags_by_name := (tags_by_name m)(n \<mapsto> updated)\<rparr>"
        by (auto split: prod.splits sum.splits)
      from update_tag_Inr[OF up]
      have u: "updated = \<lparr>t_id = t_id existing, t_name = t_name existing, category_id = cid\<rparr>"
        and b: "b = (baka m)\<lparr>calls := calls (baka m) @ [UpdateTag (t_id existing) (t_name existing) cid],
                 tags := map (\<lambda>t. if t_id t = t_id existing then updated else t) (tags (baka m))\<rparr>"
        by simp_all
      from u have uf: "t_id updated = t_id existing" "t_name updated = t_name existing"
        "category_id updated = cid" by simp_all
      from Some coh(2) have ix: "tags_index (tags (baka m)) n = Some existing" by simp
      have idx: "tags_index (map (\<lambda>t. if t_id t = t_id existing then updated else t) (tags (baka m)))
                 = (tags_index (tags (baka m)))(n \<mapsto> updated)"
        by (rule tags_index_update[OF coh(3) ix uf(1) uf(2)])
      have ids: "map t_id (map (\<lambda>t. if t_id t = t_id existing then updated else t) (tags (baka m)))
                 = map t_id (tags (baka m))"
        using uf(1) by (induction "tags (baka m)") auto
      have d': "distinct (map t_id (map (\<lambda>t. if t_id t = t_id existing then updated else t) (tags (baka m))))"
        by (simp only: ids coh(3))
      have 1: "coherent m'"
        unfolding coherent_def m' b using coh(1,2) idx d' by simp
      have 2: "frame m m'"
        unfolding frame_def m' b by (simp add: attached_def current_sources_def)
      have 3: "categories_by_name m' = categories_by_name m"
        "post_sources (baka m') = post_sources (baka m)"
        "post_tag_names (baka m') = post_tag_names (baka m)"
        "\<forall>n'. n' \<noteq> n \<longrightarrow> tags_by_name m' n' = tags_by_name m n'"
        unfolding m' b by simp_all
      have 4: "\<exists>t. tags_by_name m' n = Some t \<and> category_id t = cid"
        unfolding m' using uf(3) by simp
      from 1 2 3 4 show ?thesis by blast
    qed
  qed
qed


lemma add_tag_Inr:
  assumes "add_tag_to_post pid n b = (Inr (added, status), b')"
  shows "(added \<and> normalize_name n \<notin> set (map normalize_name (post_tag_names b pid)) \<and>
          b' = b\<lparr>calls := calls b @ [AddTagToPost pid n],
                  post_tag_names := (post_tag_names b)(pid := post_tag_names b pid @ [n])\<rparr>)
       \<or> (\<not> added \<and> status = 409 \<and>
          normalize_name n \<in> set (map normalize_name (post_tag_names b pid)) \<and>
          b' = b\<lparr>calls := calls b @ [AddTagToPost pid n]\<rparr>)"
  using assms by (auto simp: add_tag_to_post_def Let_def split: if_splits)

lemma canonical_nonblank:
  assumes "normalize_name n = n" and "n \<noteq> []"
  shows "strip n \<noteq> []"
  using assms normalize_name_Nil[of n] by simp

lemma attached_append:
  assumes "normalize_name n = n" and "n \<noteq> []"
  shows "attached (b\<lparr>calls := cs, post_tag_names := (post_tag_names b)(pid := post_tag_names b pid @ [n])\<rparr>) q
         = (if q = pid then insert n (attached b pid) else attached b q)"
proof -
  have sn: "strip n \<noteq> []" by (rule canonical_nonblank[OF assms])
  have "{t \<in> set (post_tag_names b pid @ [n]). strip t \<noteq> []}
        = insert n {t \<in> set (post_tag_names b pid). strip t \<noteq> []}"
    using sn by auto
  then have "normalize_name ` {t \<in> set (post_tag_names b pid @ [n]). strip t \<noteq> []}
        = insert n (normalize_name ` {t \<in> set (post_tag_names b pid). strip t \<noteq> []})"
    using assms(1) by (simp only: image_insert)
  then show ?thesis by (simp add: attached_def)
qed

lemma attached_member:
  assumes "normalize_name n \<in> set (map normalize_name (post_tag_names b pid))"
    and "normalize_name n = n" and "n \<noteq> []"
  shows "n \<in> attached b pid"
proof -
  from assms(1,2) obtain t where t: "t \<in> set (post_tag_names b pid)" "normalize_name t = n"
    by auto
  with assms(3) have "strip t \<noteq> []" using normalize_name_Nil[of t] by auto
  with t show ?thesis by (auto simp: attached_def)
qed

lemma cat_id_of_same:
  "categories_by_name m' = categories_by_name m \<Longrightarrow> cat_id_of m' k = cat_id_of m k"
  by (cases k) (simp_all add: cat_id_of_def)

lemma sync_one_tag_effect:
  assumes "sync_one_tag pid n cname l m = (Inr l', m')" and "\<not> dry_run m" and "coherent m"
    and "wf_oxi (oxi_categories m)" and "normalize_name n = n" and "n \<noteq> []"
    and "current_post_tags l = attached (baka m) pid"
  shows "coherent m' \<and> frame m m' \<and> post_sources (baka m') = post_sources (baka m) \<and>
         (\<forall>n'. n' \<noteq> n \<longrightarrow> tags_by_name m' n' = tags_by_name m n') \<and>
         tag_ok m' pid n (cat_key cname) \<and>
         current_post_tags l' = attached (baka m') pid \<and>
         seen_input_tags l' = seen_input_tags l"
proof -
  obtain r1 m1 where ec: "ensure_category cname m = (r1, m1)" by (cases "ensure_category cname m")
  with assms(1) obtain cid where r1: "r1 = Inr cid"
    by (cases r1) (auto simp: sync_one_tag_def)
  obtain r2 m2 where et: "ensure_tag n cid m1 = (r2, m2)" by (cases "ensure_tag n cid m1")
  with assms(1) ec r1 obtain t where r2: "r2 = Inr t"
    by (cases r2) (auto simp: sync_one_tag_def)
  from ensure_category_effect[OF ec[unfolded r1] assms(2,3,4)]
  have c1: "coherent m1" and f1: "frame m m1" and t1: "tags_by_name m1 = tags_by_name m"
    and s1: "post_sources (baka m1) = post_sources (baka m)"
    and p1: "post_tag_names (baka m1) = post_tag_names (baka m)"
    and cid: "cid = cat_id_of m1 (cat_key cname)"
    and ex1: "\<forall>key. cat_key cname = Some key \<longrightarrow> categories_by_name m1 key \<noteq> None"
    by blast+
  from f1 assms(2) have d1: "\<not> dry_run m1" by (simp add: frame_def)
  from ensure_tag_effect[OF et[unfolded r2] d1 c1 assms(5)]
  have c2: "coherent m2" and f2: "frame m1 m2"
    and cb2: "categories_by_name m2 = categories_by_name m1"
    and s2: "post_sources (baka m2) = post_sources (baka m1)"
    and p2: "post_tag_names (baka m2) = post_tag_names (baka m1)"
    and t2: "\<forall>n'. n' \<noteq> n \<longrightarrow> tags_by_name m2 n' = tags_by_name m1 n'"
    and tg: "\<exists>t. tags_by_name m2 n = Some t \<and> category_id t = cid"
    by blast+
  from f2 d1 have d2: "\<not> dry_run m2" by (simp add: frame_def)
  have f02: "frame m m2" by (rule frame_trans[OF f1 f2])
  have cid2: "cid = cat_id_of m2 (cat_key cname)" using cid cat_id_of_same[OF cb2] by simp
  have ex2: "\<forall>key. cat_key cname = Some key \<longrightarrow> categories_by_name m2 key \<noteq> None"
    using ex1 cb2 by simp
  have att2: "attached (baka m2) q = attached (baka m) q" for q
    using p1 p2 by (simp add: attached_def)
  have tags02: "\<forall>n'. n' \<noteq> n \<longrightarrow> tags_by_name m2 n' = tags_by_name m n'"
    using t1 t2 by simp
  from assms(1) ec r1 et r2
  have rest: "(if n \<in> current_post_tags l then (Inr l, m2)
               else if dry_run m2 then
                 (Inr (l\<lparr>added_count := added_count l + 1,
                         current_post_tags := insert n (current_post_tags l)\<rparr>), m2)
               else
                 (case add_tag_to_post pid n (baka m2) of
                    (Inl e, b) \<Rightarrow> (Inl e, m2\<lparr>baka := b\<rparr>)
                  | (Inr (added, status), b) \<Rightarrow>
                      if added then
                        (Inr (l\<lparr>added_count := added_count l + 1,
                                current_post_tags := insert n (current_post_tags l)\<rparr>),
                         m2\<lparr>baka := b\<rparr>)
                      else if status = 409 then
                        (Inr (l\<lparr>current_post_tags := insert n (current_post_tags l)\<rparr>),
                         m2\<lparr>baka := b\<rparr>)
                      else (Inr l, m2\<lparr>baka := b\<rparr>))) = (Inr l', m')"
    by (simp add: sync_one_tag_def)
  show ?thesis
  proof (cases "n \<in> current_post_tags l")
    case True
    with rest have e: "l' = l" "m' = m2" by simp_all
    from True assms(7) att2 have "n \<in> attached (baka m2) pid" by simp
    with tg cid2 ex2 have "tag_ok m2 pid n (cat_key cname)" by (simp add: tag_ok_def)
    with e c2 f02 s1 s2 tags02 assms(7) att2 show ?thesis by simp
  next
    case False
    with rest d2 obtain added status b where
      ad: "add_tag_to_post pid n (baka m2) = (Inr (added, status), b)"
      by (auto split: prod.splits sum.splits)
    from False assms(7) att2 have notin: "n \<notin> attached (baka m2) pid" by simp
    from add_tag_Inr[OF ad] notin attached_member[OF _ assms(5,6), of "baka m2" pid]
    have added: "added"
      and b: "b = (baka m2)\<lparr>calls := calls (baka m2) @ [AddTagToPost pid n],
                  post_tag_names := (post_tag_names (baka m2))(pid := post_tag_names (baka m2) pid @ [n])\<rparr>"
      by blast+
    from rest False d2 ad added
    have e: "l' = l\<lparr>added_count := added_count l + 1,
                      current_post_tags := insert n (current_post_tags l)\<rparr>"
      "m' = m2\<lparr>baka := b\<rparr>" by simp_all
    have att': "attached b q = (if q = pid then insert n (attached (baka m2) pid) else attached (baka m2) q)" for q
      unfolding b by (rule attached_append[OF assms(5,6)])
    have 1: "coherent m'" using c2 unfolding coherent_def e b by simp
    have f2': "frame m2 m'"
      unfolding frame_def e using att' by (auto simp: b current_sources_def)
    have 2: "frame m m'" by (rule frame_trans[OF f02 f2'])
    have 3: "post_sources (baka m') = post_sources (baka m)"
      unfolding e b using s1 s2 by simp
    have 4: "\<forall>n'. n' \<noteq> n \<longrightarrow> tags_by_name m' n' = tags_by_name m n'"
      unfolding e using tags02 by simp
    have "n \<in> attached (baka m') pid" unfolding e using att' by simp
    moreover have tc: "tags_by_name m' = tags_by_name m2" "categories_by_name m' = categories_by_name m2"
      unfolding e by simp_all
    ultimately have 5: "tag_ok m' pid n (cat_key cname)"
      using tg cid2 ex2 cat_id_of_same[OF tc(2)] by (simp add: tag_ok_def)
    have 6: "current_post_tags l' = attached (baka m') pid"
      unfolding e using att' assms(7) att2 by simp
    have 7: "seen_input_tags l' = seen_input_tags l" unfolding e by simp
    from 1 2 3 4 5 6 7 show ?thesis by blast
  qed
qed


lemma canonical_name_canonical:
  assumes "canonical_name_of py e = Inr (Some n)"
  shows "normalize_name n = n \<and> n \<noteq> []"
proof -
  from assms obtain x where x: "n = normalize_name (strip x)" "strip x \<noteq> []"
    by (auto simp: canonical_name_of_def Let_def split: pyval.splits list.splits if_splits)
  from x(2) have "strip (strip x) \<noteq> []" by (simp add: strip_strip)
  then have "normalize_name (strip x) \<noteq> []" by (simp add: normalize_name_Nil)
  with x(1) show ?thesis by (simp add: normalize_name_idem)
qed

lemma tag_ok_other_item:
  assumes "tag_ok m pid n k" and "n \<in> attached (baka m) q"
  shows "tag_ok m q n k"
  using assms by (simp add: tag_ok_def)

lemma entry_ok_step:
  assumes ok: "entry_ok py m q e0"
    and fr: "frame m m'"
    and tags: "\<forall>n'. n' \<noteq> n \<longrightarrow> tags_by_name m' n' = tags_by_name m n'"
    and new: "tag_ok m' pid n k"
    and cons: "tag_key py e0 = Some n \<longrightarrow> category_key py e0 = k"
  shows "entry_ok py m' q e0"
proof -
  have "tag_ok m' q n0 (category_key py e0)" if n0: "tag_key py e0 = Some n0" for n0
  proof -
    from ok n0 have t: "tag_ok m q n0 (category_key py e0)" by (simp add: entry_ok_def)
    show ?thesis
    proof (cases "n0 = n")
      case False
      with tags have "tags_by_name m' n0 = tags_by_name m n0" by simp
      from tag_ok_frame[OF t fr this] show ?thesis .
    next
      case True
      with n0 cons have k: "category_key py e0 = k" by simp
      from t have "n0 \<in> attached (baka m) q" by (simp add: tag_ok_def)
      with fr have "n0 \<in> attached (baka m') q" unfolding frame_def by blast
      with new True k show ?thesis by (simp add: tag_ok_other_item)
    qed
  qed
  with ok show ?thesis by (simp add: entry_ok_def)
qed

lemma migrate_tags_loop_effect:
  assumes "migrate_tags_loop py pid os l m = (Inr l', m')"
    and "\<not> dry_run m" and "coherent m" and "wf_oxi (oxi_categories m)"
    and "current_post_tags l = attached (baka m) pid"
    and "\<forall>q e. (q, e) \<in> D \<longrightarrow> entry_ok py m q e"
    and "\<forall>n\<in>seen_input_tags l. \<exists>e. (pid, e) \<in> D \<and> tag_key py e = Some n"
    and "\<forall>e\<in>snd ` D \<union> set os. \<forall>e'\<in>snd ` D \<union> set os.
           tag_key py e \<noteq> None \<and> tag_key py e = tag_key py e' \<longrightarrow>
           category_key py e = category_key py e'"
  shows "coherent m' \<and> frame m m' \<and> post_sources (baka m') = post_sources (baka m) \<and>
         (\<forall>q e. (q, e) \<in> D \<union> ({pid} \<times> set os) \<longrightarrow> entry_ok py m' q e)"
  using assms
proof (induction os arbitrary: l m D)
  case Nil
  then show ?case by (simp add: frame_refl)
next
  case (Cons e rest)
  note cons = Cons.prems(8)
  have cons': "\<forall>x\<in>snd ` (insert (pid, e) D) \<union> set rest. \<forall>x'\<in>snd ` (insert (pid, e) D) \<union> set rest.
           tag_key py x \<noteq> None \<and> tag_key py x = tag_key py x' \<longrightarrow>
           category_key py x = category_key py x'"
    using cons by auto
  show ?case
  proof (cases "canonical_name_of py e")
    case (Inl ex)
    with Cons.prems(1) show ?thesis by simp
  next
    case (Inr opt)
    show ?thesis
    proof (cases opt)
      case None
      with Inr Cons.prems(1) have run: "migrate_tags_loop py pid rest l m = (Inr l', m')" by simp
      from Inr None have "entry_ok py m pid e" by (simp add: entry_ok_def tag_key_def)
      with Cons.prems(6) have D': "\<forall>q x. (q, x) \<in> insert (pid, e) D \<longrightarrow> entry_ok py m q x"
        by auto
      from Cons.prems(7) have seen': "\<forall>n\<in>seen_input_tags l. \<exists>x. (pid, x) \<in> insert (pid, e) D \<and> tag_key py x = Some n"
        by blast
      from Cons.IH[OF run Cons.prems(2,3,4,5) D' seen' cons']
      show ?thesis by auto
    next
      case (Some n)
      with Inr have cn: "canonical_name_of py e = Inr (Some n)" by simp
      then have tk: "tag_key py e = Some n" by (simp add: tag_key_def)
      from canonical_name_canonical[OF cn] have can: "normalize_name n = n" "n \<noteq> []" by simp_all
      show ?thesis
      proof (cases "n \<in> seen_input_tags l")
        case True
        with cn Cons.prems(1) have run: "migrate_tags_loop py pid rest l m = (Inr l', m')" by simp
        from True Cons.prems(7) obtain e0 where e0: "(pid, e0) \<in> D" "tag_key py e0 = Some n"
          by blast
        with Cons.prems(6) have "tag_ok m pid n (category_key py e0)"
          by (auto simp: entry_ok_def)
        moreover from cons e0 tk have "category_key py e0 = category_key py e"
          by (metis UnCI image_eqI list.set_intros(1) option.distinct(1) snd_conv)
        ultimately have "entry_ok py m pid e" using cn tk by (simp add: entry_ok_def)
        with Cons.prems(6) have D': "\<forall>q x. (q, x) \<in> insert (pid, e) D \<longrightarrow> entry_ok py m q x"
          by auto
        from Cons.prems(7) have seen': "\<forall>n\<in>seen_input_tags l. \<exists>x. (pid, x) \<in> insert (pid, e) D \<and> tag_key py x = Some n"
          by blast
        from Cons.IH[OF run Cons.prems(2,3,4,5) D' seen' cons']
        show ?thesis by auto
      next
        case False
        let ?l1 = "l\<lparr>seen_input_tags := insert n (seen_input_tags l),
                      discovered_count := discovered_count l + 1\<rparr>"
        obtain r2 m2 where so: "sync_one_tag pid n (category_name_of py e) ?l1 m = (r2, m2)"
          by (cases "sync_one_tag pid n (category_name_of py e) ?l1 m")
        with False cn Cons.prems(1) obtain l2 where r2: "r2 = Inr l2"
          by (cases r2) auto
        with so False cn Cons.prems(1) have run: "migrate_tags_loop py pid rest l2 m2 = (Inr l', m')"
          by simp
        have cur1: "current_post_tags ?l1 = attached (baka m) pid" using Cons.prems(5) by simp
        from sync_one_tag_effect[OF so[unfolded r2] Cons.prems(2,3,4) can cur1]
        have c2: "coherent m2" and f2: "frame m m2"
          and s2: "post_sources (baka m2) = post_sources (baka m)"
          and t2: "\<forall>n'. n' \<noteq> n \<longrightarrow> tags_by_name m2 n' = tags_by_name m n'"
          and ok2: "tag_ok m2 pid n (category_key py e)"
          and cur2: "current_post_tags l2 = attached (baka m2) pid"
          and seen2: "seen_input_tags l2 = insert n (seen_input_tags l)"
          by (simp_all add: category_key_def)
        from f2 Cons.prems(2,4) have d2: "\<not> dry_run m2" and w2: "wf_oxi (oxi_categories m2)"
          by (simp_all add: frame_def)
        have D': "\<forall>q x. (q, x) \<in> insert (pid, e) D \<longrightarrow> entry_ok py m2 q x"
        proof (intro allI impI)
          fix q x assume "(q, x) \<in> insert (pid, e) D"
          then consider "q = pid" "x = e" | "(q, x) \<in> D" by auto
          then show "entry_ok py m2 q x"
          proof cases
            case 1
            with cn tk ok2 show ?thesis by (simp add: entry_ok_def)
          next
            case 2
            with Cons.prems(6) have ok: "entry_ok py m q x" by simp
            have "tag_key py x = Some n \<longrightarrow> category_key py x = category_key py e"
            proof
              assume "tag_key py x = Some n"
              with cons 2 tk show "category_key py x = category_key py e"
                by (metis UnCI image_eqI list.set_intros(1) option.distinct(1) snd_conv)
            qed
            from entry_ok_step[OF ok f2 t2 ok2 this] show ?thesis .
          qed
        qed
        have seen': "\<forall>n'\<in>seen_input_tags l2. \<exists>x. (pid, x) \<in> insert (pid, e) D \<and> tag_key py x = Some n'"
          using seen2 tk Cons.prems(7) by auto
        from Cons.IH[OF run d2 c2 w2 cur2 D' seen' cons']
        have r: "coherent m'" "frame m2 m'" "post_sources (baka m') = post_sources (baka m2)"
          "\<forall>q x. (q, x) \<in> insert (pid, e) D \<union> ({pid} \<times> set rest) \<longrightarrow> entry_ok py m' q x"
          by blast+
        from r(4) have "\<forall>q x. (q, x) \<in> D \<union> ({pid} \<times> set (e # rest)) \<longrightarrow> entry_ok py m' q x"
          by auto
        with r(1) frame_trans[OF f2 r(2)] r(3) s2 show ?thesis by simp
      qed
    qed
  qed
qed

subsection \<open>A whole run, and the run after it\<close>

lemma current_tag_names_listed:
  "current_tag_names py (map (\<lambda>n. PDict [(''name'', PStr n)]) names) =
     Inr (normalize_name ` {t \<in> set names. strip t \<noteq> []})"
  by (induction names) (auto simp: Let_def)

lemma migrate_post_tags_effect:
  assumes "migrate_post_tags py pid (listed_tags (baka m) pid)
             (py_or (py_get mp ''tags'') (PList [])) m = (Inr r, m')"
    and "\<not> dry_run m" and "coherent m" and "wf_oxi (oxi_categories m)"
    and "\<forall>q e. (q, e) \<in> D \<longrightarrow> entry_ok py m q e"
    and "\<forall>e\<in>snd ` D \<union> set (oxi_tags_of mp). \<forall>e'\<in>snd ` D \<union> set (oxi_tags_of mp).
           tag_key py e \<noteq> None \<and> tag_key py e = tag_key py e' \<longrightarrow>
           category_key py e = category_key py e'"
  shows "coherent m' \<and> frame m m' \<and> post_sources (baka m') = post_sources (baka m) \<and>
         \<not> isl (py_iter (py_or (py_get mp ''tags'') (PList []))) \<and>
         (\<forall>q e. (q, e) \<in> D \<union> ({pid} \<times> set (oxi_tags_of mp)) \<longrightarrow> entry_ok py m' q e)"
proof -
  let ?cur = "normalize_name ` {t \<in> set (post_tag_names (baka m) pid). strip t \<noteq> []}"
  let ?l0 = "\<lparr>current_post_tags = ?cur, seen_input_tags = {}, added_count = 0, discovered_count = 0\<rparr>"
  have it: "py_iter (listed_tags (baka m) pid) = Inr (map (\<lambda>n. PDict [(''name'', PStr n)]) (post_tag_names (baka m) pid))"
    by (simp add: listed_tags_def)
  from assms(1) obtain os where os: "py_iter (py_or (py_get mp ''tags'') (PList [])) = Inr os"
    by (cases "py_iter (py_or (py_get mp ''tags'') (PList []))")
       (auto simp: migrate_post_tags_def it current_tag_names_listed)
  then have ot: "oxi_tags_of mp = os" by (simp add: oxi_tags_of_def)
  obtain r1 m1 where lp: "migrate_tags_loop py pid os ?l0 m = (r1, m1)"
    by (cases "migrate_tags_loop py pid os ?l0 m")
  with assms(1) os obtain l' where r1: "r1 = Inr l'" and m1: "m1 = m'"
    by (cases r1) (auto simp: migrate_post_tags_def it current_tag_names_listed)
  have cur: "current_post_tags ?l0 = attached (baka m) pid" by (simp add: attached_def)
  have seen: "\<forall>n\<in>seen_input_tags ?l0. \<exists>e. (pid, e) \<in> D \<and> tag_key py e = Some n" by simp
  from migrate_tags_loop_effect[OF lp[unfolded r1 m1] assms(2,3,4) cur assms(5) seen assms(6)[unfolded ot]]
  show ?thesis using os ot by simp
qed


lemma get_post_sources_Inr:
  assumes "get_post_sources pid b = (Inr cur, b')"
  shows "\<not> refuses b (GetPostSources pid) \<and> current_sources b pid = Some cur \<and>
         b' = b\<lparr>calls := calls b @ [GetPostSources pid]\<rparr>"
  using assms
  by (auto simp: get_post_sources_def current_sources_def Let_def split: if_splits pyval.splits)

lemma set_post_sources_Inr:
  assumes "set_post_sources pid xs b = (Inr u, b')"
  shows "b' = b\<lparr>calls := calls b @ [SetPostSources pid xs],
                 post_sources := (post_sources b)(pid := PList (map PStr xs))\<rparr>"
  using assms by (auto simp: set_post_sources_def Let_def split: if_splits)

lemma str_items_PStr: "str_items (map PStr xs) = xs"
  by (induction xs) auto

lemma trimmed_id: "\<forall>x\<in>set xs. x \<noteq> [] \<and> strip x = x \<Longrightarrow> trimmed xs = xs"
  by (induction xs) (auto simp: trimmed_def)

lemma trimmed_stripped: "x \<in> set (trimmed xs) \<Longrightarrow> x \<noteq> [] \<and> strip x = x"
  by (auto simp: trimmed_def strip_strip)

lemma migrate_post_sources_effect:
  assumes "migrate_post_sources pid mp m = (Inr r, m')" and "\<not> dry_run m"
  shows "src_ok m' pid mp \<and> frame m m' \<and>
         categories_by_name m' = categories_by_name m \<and> tags_by_name m' = tags_by_name m \<and>
         categories (baka m') = categories (baka m) \<and> tags (baka m') = tags (baka m) \<and>
         post_tag_names (baka m') = post_tag_names (baka m)"
proof (cases "extract_oxibooru_sources mp = []")
  case True
  with assms(1) have "m' = m" by (simp add: migrate_post_sources_def)
  with True show ?thesis by (simp add: src_ok_def frame_refl)
next
  case False
  let ?ex = "extract_oxibooru_sources mp"
  obtain r1 b where g: "get_post_sources pid (baka m) = (r1, b)"
    by (cases "get_post_sources pid (baka m)")
  with assms(1) False obtain cur where r1: "r1 = Inr cur"
    by (cases r1) (auto simp: migrate_post_sources_def)
  from get_post_sources_Inr[OF g[unfolded r1]]
  have nr: "\<not> refuses (baka m) (GetPostSources pid)"
    and cs: "current_sources (baka m) pid = Some cur"
    and b: "b = (baka m)\<lparr>calls := calls (baka m) @ [GetPostSources pid]\<rparr>" by simp_all
  let ?add = "sources_to_add cur ?ex"
  show ?thesis
  proof (cases "?add = []")
    case True
    with assms(1) False g r1 have m': "m' = m\<lparr>baka := b\<rparr>"
      by (simp add: migrate_post_sources_def)
    from True have "\<forall>s\<in>set ?ex. strip s \<in> strip ` set cur"
      by (auto simp: sources_to_add_def filter_empty_conv)
    with nr cs have "src_ok m' pid mp"
      unfolding src_ok_def m' b by (auto simp: current_sources_def)
    moreover have "frame m m'" unfolding m' b by (rule frame_calls)
    ultimately show ?thesis unfolding m' b by simp
  next
    case ne: False
    obtain r2 b' where sp: "set_post_sources pid (cur @ ?add) b = (r2, b')"
      by (cases "set_post_sources pid (cur @ ?add) b")
    with assms False g r1 ne obtain u where r2: "r2 = Inr u" and m': "m' = m\<lparr>baka := b'\<rparr>"
      by (cases r2) (auto simp: migrate_post_sources_def Let_def)
    from set_post_sources_Inr[OF sp[unfolded r2]]
    have b': "b' = b\<lparr>calls := calls b @ [SetPostSources pid (cur @ ?add)],
                 post_sources := (post_sources b)(pid := PList (map PStr (cur @ ?add)))\<rparr>" .
    from cs have curs: "\<forall>x\<in>set cur. x \<noteq> [] \<and> strip x = x"
      by (auto simp: current_sources_def split: pyval.splits dest: trimmed_stripped)
    have adds: "\<forall>x\<in>set ?add. x \<noteq> [] \<and> strip x = x"
      using extract_stripped by (auto simp: sources_to_add_def)
    from curs adds have "trimmed (cur @ ?add) = cur @ ?add"
      by (intro trimmed_id) auto
    moreover have "str_items (map PStr (cur @ ?add)) = cur @ ?add" by (rule str_items_PStr)
    ultimately have cs': "current_sources b' pid = Some (cur @ ?add)"
      unfolding b' by (simp add: current_sources_def del: map_append)
    have other: "current_sources b' q = current_sources (baka m) q" if "q \<noteq> pid" for q
      using that unfolding b' b by (simp add: current_sources_def)
    have "strip s \<in> strip ` set (cur @ ?add)" if "s \<in> set ?ex" for s
    proof (cases "strip s \<in> strip ` set cur")
      case True
      then show ?thesis by auto
    next
      case False
      with that have "s \<in> set ?add" by (simp add: sources_to_add_def)
      then show ?thesis by auto
    qed
    with nr cs' have 1: "src_ok m' pid mp"
      unfolding src_ok_def m' by (auto simp: b' b)
    have 2: "frame m m'"
      unfolding frame_def
    proof (intro conjI allI impI)
      fix q c assume c: "current_sources (baka m) q = Some c"
      show "\<exists>cur'. current_sources (baka m') q = Some cur' \<and> set c \<subseteq> set cur'"
      proof (cases "q = pid")
        case True
        with c cs cs' show ?thesis by (auto simp: m')
      next
        case False
        with c other show ?thesis by (simp add: m')
      qed
    qed (simp_all add: m' b' b attached_def)
    from 1 2 show ?thesis unfolding m' b' b by simp
  qed
qed


lemma entry_ok_same:
  assumes "tags_by_name m' = tags_by_name m" and "categories_by_name m' = categories_by_name m"
    and "post_tag_names (baka m') = post_tag_names (baka m)"
  shows "entry_ok py m' q e = entry_ok py m q e"
  using assms cat_id_of_same[OF assms(2)]
  by (simp add: entry_ok_def tag_ok_def attached_def)

lemma reconcile_item_effect:
  assumes "reconcile_item py (pid, mp) m = (Inr u, m')"
    and "\<not> dry_run m" and "coherent m" and "wf_oxi (oxi_categories m)"
    and "\<forall>q e. (q, e) \<in> D \<longrightarrow> entry_ok py m q e"
    and "\<forall>q p. (q, p) \<in> S \<longrightarrow> src_ok m q p"
    and "\<forall>e\<in>snd ` D \<union> set (oxi_tags_of mp). \<forall>e'\<in>snd ` D \<union> set (oxi_tags_of mp).
           tag_key py e \<noteq> None \<and> tag_key py e = tag_key py e' \<longrightarrow>
           category_key py e = category_key py e'"
  shows "coherent m' \<and> frame m m' \<and>
         \<not> isl (py_iter (py_or (py_get mp ''tags'') (PList []))) \<and>
         (\<forall>q e. (q, e) \<in> D \<union> ({pid} \<times> set (oxi_tags_of mp)) \<longrightarrow> entry_ok py m' q e) \<and>
         (\<forall>q p. (q, p) \<in> insert (pid, mp) S \<longrightarrow> src_ok m' q p)"
proof -
  obtain r1 m1 where t: "migrate_post_tags py pid (listed_tags (baka m) pid)
             (py_or (py_get mp ''tags'') (PList [])) m = (r1, m1)"
    by (cases "migrate_post_tags py pid (listed_tags (baka m) pid)
             (py_or (py_get mp ''tags'') (PList [])) m")
  with assms(1) obtain c1 where r1: "r1 = Inr c1"
    by (cases r1) (auto simp: reconcile_item_def)
  obtain r2 m2 where sr: "migrate_post_sources pid mp m1 = (r2, m2)"
    by (cases "migrate_post_sources pid mp m1")
  with assms(1) t r1 obtain c2 where r2: "r2 = Inr c2" and m2: "m2 = m'"
    by (cases r2) (auto simp: reconcile_item_def)
  from migrate_post_tags_effect[OF t[unfolded r1] assms(2,3,4,5,7)]
  have c1: "coherent m1" and f1: "frame m m1"
    and it: "\<not> isl (py_iter (py_or (py_get mp ''tags'') (PList [])))"
    and e1: "\<forall>q e. (q, e) \<in> D \<union> ({pid} \<times> set (oxi_tags_of mp)) \<longrightarrow> entry_ok py m1 q e"
    by blast+
  from f1 assms(2) have d1: "\<not> dry_run m1" by (simp add: frame_def)
  from migrate_post_sources_effect[OF sr[unfolded r2 m2] d1]
  have s2: "src_ok m' pid mp" and f2: "frame m1 m'"
    and same: "categories_by_name m' = categories_by_name m1" "tags_by_name m' = tags_by_name m1"
      "categories (baka m') = categories (baka m1)" "tags (baka m') = tags (baka m1)"
      "post_tag_names (baka m') = post_tag_names (baka m1)"
    by blast+
  have 1: "coherent m'" using c1 same by (simp add: coherent_def)
  have f: "frame m m'" by (rule frame_trans[OF f1 f2])
  have 3: "\<forall>q e. (q, e) \<in> D \<union> ({pid} \<times> set (oxi_tags_of mp)) \<longrightarrow> entry_ok py m' q e"
    using e1 entry_ok_same[OF same(2) same(1) same(5)] by simp
  have 4: "\<forall>q p. (q, p) \<in> insert (pid, mp) S \<longrightarrow> src_ok m' q p"
  proof (intro allI impI)
    fix q p assume "(q, p) \<in> insert (pid, mp) S"
    then consider "q = pid" "p = mp" | "(q, p) \<in> S" by auto
    then show "src_ok m' q p"
    proof cases
      case 1
      with s2 show ?thesis by simp
    next
      case 2
      with assms(6) have "src_ok m q p" by simp
      from src_ok_frame[OF this f] show ?thesis .
    qed
  qed
  from 1 f it 3 4 show ?thesis by blast
qed

lemma reconcile_effect:
  assumes "reconcile py items m = (Inr u, m')"
    and "\<not> dry_run m" and "coherent m" and "wf_oxi (oxi_categories m)"
    and "\<forall>q e. (q, e) \<in> D \<longrightarrow> entry_ok py m q e"
    and "\<forall>q p. (q, p) \<in> S \<longrightarrow> src_ok m q p"
    and "\<forall>e\<in>snd ` D \<union> set (concat (map (\<lambda>item. oxi_tags_of (snd item)) items)).
         \<forall>e'\<in>snd ` D \<union> set (concat (map (\<lambda>item. oxi_tags_of (snd item)) items)).
           tag_key py e \<noteq> None \<and> tag_key py e = tag_key py e' \<longrightarrow>
           category_key py e = category_key py e'"
  shows "coherent m' \<and> frame m m' \<and>
         (\<forall>q e. (q, e) \<in> D \<longrightarrow> entry_ok py m' q e) \<and>
         (\<forall>q p. (q, p) \<in> S \<longrightarrow> src_ok m' q p) \<and>
         (\<forall>item\<in>set items. item_ok py m' item)"
  using assms
proof (induction items arbitrary: m D S)
  case Nil
  then show ?case by (simp add: frame_refl)
next
  case (Cons item rest)
  obtain pid mp where item: "item = (pid, mp)" by (cases item)
  obtain r1 m1 where ri: "reconcile_item py (pid, mp) m = (r1, m1)"
    by (cases "reconcile_item py (pid, mp) m")
  with Cons.prems(1) item obtain u1 where r1: "r1 = Inr u1"
    by (cases r1) auto
  with ri Cons.prems(1) item have run: "reconcile py rest m1 = (Inr u, m')" by simp
  let ?D1 = "D \<union> ({pid} \<times> set (oxi_tags_of mp))"
  let ?S1 = "insert (pid, mp) S"
  have cons1: "\<forall>e\<in>snd ` D \<union> set (oxi_tags_of mp). \<forall>e'\<in>snd ` D \<union> set (oxi_tags_of mp).
           tag_key py e \<noteq> None \<and> tag_key py e = tag_key py e' \<longrightarrow>
           category_key py e = category_key py e'"
    using Cons.prems(7) item by auto
  from reconcile_item_effect[OF ri[unfolded r1] Cons.prems(2,3,4,5,6) cons1]
  have c1: "coherent m1" and f1: "frame m m1"
    and it: "\<not> isl (py_iter (py_or (py_get mp ''tags'') (PList [])))"
    and D1: "\<forall>q e. (q, e) \<in> ?D1 \<longrightarrow> entry_ok py m1 q e"
    and S1: "\<forall>q p. (q, p) \<in> ?S1 \<longrightarrow> src_ok m1 q p"
    by blast+
  from f1 Cons.prems(2,4) have d1: "\<not> dry_run m1" and w1: "wf_oxi (oxi_categories m1)"
    by (simp_all add: frame_def)
  have sub: "snd ` ?D1 \<union> set (concat (map (\<lambda>item. oxi_tags_of (snd item)) rest))
             \<subseteq> snd ` D \<union> set (concat (map (\<lambda>item. oxi_tags_of (snd item)) (item # rest)))"
    using item by auto
  have cons2: "\<forall>e\<in>snd ` ?D1 \<union> set (concat (map (\<lambda>item. oxi_tags_of (snd item)) rest)).
         \<forall>e'\<in>snd ` ?D1 \<union> set (concat (map (\<lambda>item. oxi_tags_of (snd item)) rest)).
           tag_key py e \<noteq> None \<and> tag_key py e = tag_key py e' \<longrightarrow>
           category_key py e = category_key py e'"
    using Cons.prems(7) sub by (meson subsetD)
  from Cons.IH[OF run d1 c1 w1 D1 S1 cons2]
  have r: "coherent m'" "frame m1 m'" "\<forall>q e. (q, e) \<in> ?D1 \<longrightarrow> entry_ok py m' q e"
    "\<forall>q p. (q, p) \<in> ?S1 \<longrightarrow> src_ok m' q p" "\<forall>item\<in>set rest. item_ok py m' item"
    by blast+
  from r(3) r(4) it have "item_ok py m' (pid, mp)" by (simp add: item_ok_def)
  with r item frame_trans[OF f1 r(2)] show ?case by simp
qed


text \<open>
  In a state where an item is settled, its reconciliation issues no call but the read of
  the item's sources.
\<close>

lemma ensure_category_settled:
  assumes "\<forall>key. cat_key cn = Some key \<longrightarrow> categories_by_name m key \<noteq> None"
  shows "ensure_category cn m = (Inr (cat_id_of m (cat_key cn)), m)"
proof (cases cn)
  case None
  then show ?thesis by (simp add: ensure_category_def cat_key_def cat_id_of_def)
next
  case (Some c0)
  show ?thesis
  proof (cases "c0 = [] \<or> strip c0 = []")
    case True
    with Some show ?thesis by (auto simp: ensure_category_def cat_key_def cat_id_of_def)
  next
    case False
    with Some have k: "cat_key cn = Some (normalize_name c0)" by (simp add: cat_key_def)
    with assms obtain c where "categories_by_name m (normalize_name c0) = Some c" by auto
    with Some False k show ?thesis by (simp add: ensure_category_def cat_id_of_def)
  qed
qed

lemma sync_one_tag_settled:
  assumes "tag_ok m pid n (cat_key cname)" and "normalize_name n = n"
    and "n \<in> current_post_tags l"
  shows "sync_one_tag pid n cname l m = (Inr l, m)"
proof -
  from assms(1) obtain t where t: "tags_by_name m n = Some t"
    "category_id t = cat_id_of m (cat_key cname)"
    and c: "\<forall>key. cat_key cname = Some key \<longrightarrow> categories_by_name m key \<noteq> None"
    by (auto simp: tag_ok_def)
  have et: "ensure_tag n (cat_id_of m (cat_key cname)) m = (Inr (Some t), m)"
    using t assms(2) by (simp add: ensure_tag_def)
  show ?thesis
    using ensure_category_settled[OF c] et assms(3) by (simp add: sync_one_tag_def)
qed

lemma migrate_tags_loop_settled:
  assumes "\<forall>e\<in>set os. entry_ok py m pid e" and "attached (baka m) pid \<subseteq> current_post_tags l"
  shows "\<exists>l'. migrate_tags_loop py pid os l m = (Inr l', m)"
  using assms
proof (induction os arbitrary: l)
  case Nil
  then show ?case by simp
next
  case (Cons e rest)
  from Cons.prems(1) have ok: "entry_ok py m pid e" and rest: "\<forall>e\<in>set rest. entry_ok py m pid e"
    by simp_all
  from ok obtain opt where opt: "canonical_name_of py e = Inr opt"
    by (cases "canonical_name_of py e") (auto simp: entry_ok_def)
  show ?case
  proof (cases opt)
    case None
    with opt Cons.IH[OF rest Cons.prems(2)] show ?thesis by simp
  next
    case (Some n)
    with opt have cn: "canonical_name_of py e = Inr (Some n)" by simp
    then have tk: "tag_key py e = Some n" by (simp add: tag_key_def)
    from canonical_name_canonical[OF cn] have can: "normalize_name n = n" by simp
    show ?thesis
    proof (cases "n \<in> seen_input_tags l")
      case True
      with cn Cons.IH[OF rest Cons.prems(2)] show ?thesis by simp
    next
      case False
      let ?l1 = "l\<lparr>seen_input_tags := insert n (seen_input_tags l),
                    discovered_count := discovered_count l + 1\<rparr>"
      from ok tk have t: "tag_ok m pid n (cat_key (category_name_of py e))"
        by (simp add: entry_ok_def category_key_def)
      then have "n \<in> attached (baka m) pid" by (simp add: tag_ok_def)
      with Cons.prems(2) have "n \<in> current_post_tags ?l1" by auto
      from sync_one_tag_settled[OF t can this]
      have so: "sync_one_tag pid n (category_name_of py e) ?l1 m = (Inr ?l1, m)" .
      have "attached (baka m) pid \<subseteq> current_post_tags ?l1" using Cons.prems(2) by simp
      from Cons.IH[OF rest this] obtain l' where "migrate_tags_loop py pid rest ?l1 m = (Inr l', m)"
        by blast
      with cn False so show ?thesis by simp
    qed
  qed
qed

lemma migrate_post_tags_settled:
  assumes "\<not> isl (py_iter (py_or (py_get mp ''tags'') (PList [])))"
    and "\<forall>e\<in>set (oxi_tags_of mp). entry_ok py m pid e"
  shows "\<exists>r. migrate_post_tags py pid (listed_tags (baka m) pid)
             (py_or (py_get mp ''tags'') (PList [])) m = (Inr r, m)"
proof -
  let ?cur = "normalize_name ` {t \<in> set (post_tag_names (baka m) pid). strip t \<noteq> []}"
  let ?l0 = "\<lparr>current_post_tags = ?cur, seen_input_tags = {}, added_count = 0, discovered_count = 0\<rparr>"
  have it: "py_iter (listed_tags (baka m) pid) = Inr (map (\<lambda>n. PDict [(''name'', PStr n)]) (post_tag_names (baka m) pid))"
    by (simp add: listed_tags_def)
  from assms(1) obtain os where os: "py_iter (py_or (py_get mp ''tags'') (PList [])) = Inr os"
    by (cases "py_iter (py_or (py_get mp ''tags'') (PList []))") auto
  then have ot: "oxi_tags_of mp = os" by (simp add: oxi_tags_of_def)
  have "attached (baka m) pid \<subseteq> current_post_tags ?l0" by (simp add: attached_def)
  from migrate_tags_loop_settled[OF assms(2)[unfolded ot] this]
  obtain l' where "migrate_tags_loop py pid os ?l0 m = (Inr l', m)" by blast
  with os it show ?thesis
    by (simp add: migrate_post_tags_def current_tag_names_listed)
qed

lemma migrate_post_sources_settled:
  assumes "src_ok m pid mp"
  shows "\<exists>r reads. migrate_post_sources pid mp m =
            (Inr r, m\<lparr>baka := (baka m)\<lparr>calls := calls (baka m) @ reads\<rparr>\<rparr>) \<and>
          (\<forall>c\<in>set reads. is_read c)"
proof (cases "extract_oxibooru_sources mp = []")
  case True
  then have "migrate_post_sources pid mp m =
            (Inr (0, 0), m\<lparr>baka := (baka m)\<lparr>calls := calls (baka m) @ []\<rparr>\<rparr>)"
    by (simp add: migrate_post_sources_def)
  then show ?thesis by (metis empty_iff list.set(1))
next
  case False
  with assms obtain cur where nr: "\<not> refuses (baka m) (GetPostSources pid)"
    and cs: "current_sources (baka m) pid = Some cur"
    and all: "\<forall>s\<in>set (extract_oxibooru_sources mp). strip s \<in> strip ` set cur"
    by (auto simp: src_ok_def)
  from nr cs have g: "get_post_sources pid (baka m) =
      (Inr cur, (baka m)\<lparr>calls := calls (baka m) @ [GetPostSources pid]\<rparr>)"
    by (auto simp: get_post_sources_def current_sources_def split: pyval.splits)
  from all have "sources_to_add cur (extract_oxibooru_sources mp) = []"
    by (auto simp: sources_to_add_def filter_empty_conv)
  with False g have "migrate_post_sources pid mp m =
      (Inr (length (extract_oxibooru_sources mp), 0),
       m\<lparr>baka := (baka m)\<lparr>calls := calls (baka m) @ [GetPostSources pid]\<rparr>\<rparr>)"
    by (simp add: migrate_post_sources_def)
  moreover have "\<forall>c\<in>set [GetPostSources pid]. is_read c" by simp
  ultimately show ?thesis by blast
qed

lemma reconcile_item_settled:
  assumes "item_ok py m item"
  shows "\<exists>reads. reconcile_item py item m =
            (Inr (), m\<lparr>baka := (baka m)\<lparr>calls := calls (baka m) @ reads\<rparr>\<rparr>) \<and>
          (\<forall>c\<in>set reads. is_read c)"
proof -
  obtain pid mp where item: "item = (pid, mp)" by (cases item)
  with assms have a: "\<not> isl (py_iter (py_or (py_get mp ''tags'') (PList [])))"
    "\<forall>e\<in>set (oxi_tags_of mp). entry_ok py m pid e" "src_ok m pid mp"
    by (simp_all add: item_ok_def)
  from migrate_post_tags_settled[OF a(1,2)] obtain r where
    t: "migrate_post_tags py pid (listed_tags (baka m) pid)
             (py_or (py_get mp ''tags'') (PList [])) m = (Inr r, m)" by blast
  from migrate_post_sources_settled[OF a(3)] obtain r' reads where
    s: "migrate_post_sources pid mp m =
            (Inr r', m\<lparr>baka := (baka m)\<lparr>calls := calls (baka m) @ reads\<rparr>\<rparr>)"
    and rd: "\<forall>c\<in>set reads. is_read c" by blast
  from t s item have "reconcile_item py item m =
            (Inr (), m\<lparr>baka := (baka m)\<lparr>calls := calls (baka m) @ reads\<rparr>\<rparr>)"
    by (simp add: reconcile_item_def)
  with rd show ?thesis by blast
qed

lemma item_ok_calls:
  "item_ok py (m\<lparr>baka := (baka m)\<lparr>calls := cs\<rparr>\<rparr>) item = item_ok py m item"
proof -
  have "cat_id_of (m\<lparr>baka := (baka m)\<lparr>calls := cs\<rparr>\<rparr>) k = cat_id_of m k" for k
    by (rule cat_id_of_same) simp
  then show ?thesis
    by (simp add: item_ok_def entry_ok_def tag_ok_def src_ok_def attached_def current_sources_def)
qed

lemma reconcile_settled:
  assumes "\<forall>item\<in>set items. item_ok py m item"
  shows "\<exists>reads. reconcile py items m =
            (Inr (), m\<lparr>baka := (baka m)\<lparr>calls := calls (baka m) @ reads\<rparr>\<rparr>) \<and>
          (\<forall>c\<in>set reads. is_read c)"
  using assms
proof (induction items arbitrary: m)
  case Nil
  have "reconcile py [] m = (Inr (), m\<lparr>baka := (baka m)\<lparr>calls := calls (baka m) @ []\<rparr>\<rparr>)"
    by simp
  then show ?case by (metis empty_iff list.set(1))
next
  case (Cons item rest)
  from Cons.prems have ok: "item_ok py m item" and oks: "\<forall>i\<in>set rest. item_ok py m i" by simp_all
  from reconcile_item_settled[OF ok] obtain reads where
    ri: "reconcile_item py item m = (Inr (), m\<lparr>baka := (baka m)\<lparr>calls := calls (baka m) @ reads\<rparr>\<rparr>)"
    and rd: "\<forall>c\<in>set reads. is_read c" by blast
  let ?m1 = "m\<lparr>baka := (baka m)\<lparr>calls := calls (baka m) @ reads\<rparr>\<rparr>"
  from oks have "\<forall>i\<in>set rest. item_ok py ?m1 i" by (simp add: item_ok_calls)
  from Cons.IH[OF this] obtain reads' where
    rr: "reconcile py rest ?m1 = (Inr (), ?m1\<lparr>baka := (baka ?m1)\<lparr>calls := calls (baka ?m1) @ reads'\<rparr>\<rparr>)"
    and rd': "\<forall>c\<in>set reads'. is_read c" by blast
  from ri rr have "reconcile py (item # rest) m =
      (Inr (), m\<lparr>baka := (baka m)\<lparr>calls := calls (baka m) @ (reads @ reads')\<rparr>\<rparr>)"
    by simp
  moreover from rd rd' have "\<forall>c\<in>set (reads @ reads'). is_read c" by auto
  ultimately show ?case by blast
qed


lemma tag_categories_loop_wf:
  assumes "tag_categories_loop py results mapped = Inr oxi" and "wf_oxi mapped"
  shows "wf_oxi oxi"
  using assms
proof (induction results arbitrary: mapped)
  case Nil
  then show ?case by simp
next
  case (Cons item rest)
  from Cons.prems(1) obtain d where d: "item = PDict d" by (cases item) auto
  let ?name = "strip (py_str py (case map_of d ''name'' of None \<Rightarrow> PStr [] | Some v \<Rightarrow> v))"
  show ?case
  proof (cases "?name = []")
    case True
    with d Cons.prems(1) have "tag_categories_loop py rest mapped = Inr oxi" by simp
    from Cons.IH[OF this Cons.prems(2)] show ?thesis .
  next
    case False
    with d Cons.prems(1) obtain ord where
      run: "tag_categories_loop py rest
              (mapped(normalize_name ?name \<mapsto>
                 \<lparr>oc_name = ?name,
                  oc_color = py_str py (py_or (py_get d ''color'') (PStr ''#808080'')),
                  oc_order = ord\<rparr>)) = Inr oxi"
      by (cases "py_int py (py_or (py_get d ''order'') (PInt 0))") (auto simp: Let_def)
    have "wf_oxi (mapped(normalize_name ?name \<mapsto>
                 \<lparr>oc_name = ?name,
                  oc_color = py_str py (py_or (py_get d ''color'') (PStr ''#808080'')),
                  oc_order = ord\<rparr>))"
      using Cons.prems(2) by (auto simp: wf_oxi_def)
    from Cons.IH[OF run this] show ?thesis .
  qed
qed

lemma get_tag_categories_wf: "get_tag_categories py results = Inr oxi \<Longrightarrow> wf_oxi oxi"
  unfolding get_tag_categories_def
  by (erule tag_categories_loop_wf) (simp add: wf_oxi_def)

lemma migrator_init_coherent:
  "distinct (map t_id (tags b)) \<Longrightarrow> coherent (migrator_init b oxi dry)"
  by (simp add: coherent_def migrator_init_def)

lemma migrator_init_again:
  assumes "coherent m" and "\<not> dry_run m" and "oxi_categories m = oxi"
  shows "migrator_init (baka m) oxi False = m"
  using assms by (intro migrator.equality) (simp_all add: migrator_init_def coherent_def)

text \<open>
  Claim C3, amended. Take a catalogue whose tags have distinct identifiers, the origin's
  category metadata as \<open>get_tag_categories\<close> loads it, and matched items in which the
  origin gives a tag one category: tag entries with the same canonical name have category
  labels with the same key, or none. After a first run that is not a dry run and in which
  no item raised, a second run over the same items returns normally and its only calls
  are reads of an item's sources: no category or tag is created, no tag is updated or
  attached, no source list is replaced, and the catalogue and the indexes end as the
  first run left them.
\<close>

theorem second_run_writes_nothing:
  assumes "distinct (map t_id (tags b))"
    and "get_tag_categories py results = Inr oxi"
    and "consistent_categories py items"
    and "reconcile_run py oxi items b = (Inr u, m1)"
  shows "\<exists>reads. reconcile_run py oxi items (baka m1) =
             (Inr (), m1\<lparr>baka := (baka m1)\<lparr>calls := calls (baka m1) @ reads\<rparr>\<rparr>) \<and>
           (\<forall>c\<in>set reads. is_read c)"
proof -
  let ?m0 = "migrator_init b oxi False"
  have c0: "coherent ?m0" by (rule migrator_init_coherent[OF assms(1)])
  have d0: "\<not> dry_run ?m0" by (simp add: migrator_init_def)
  have w0: "wf_oxi (oxi_categories ?m0)"
    using get_tag_categories_wf[OF assms(2)] by (simp add: migrator_init_def)
  have D: "\<forall>q e. (q, e) \<in> {} \<longrightarrow> entry_ok py ?m0 q e" by simp
  have S: "\<forall>q p. (q, p) \<in> {} \<longrightarrow> src_ok ?m0 q p" by simp
  have cons: "\<forall>e\<in>snd ` {} \<union> set (concat (map (\<lambda>item. oxi_tags_of (snd item)) items)).
         \<forall>e'\<in>snd ` {} \<union> set (concat (map (\<lambda>item. oxi_tags_of (snd item)) items)).
           tag_key py e \<noteq> None \<and> tag_key py e = tag_key py e' \<longrightarrow>
           category_key py e = category_key py e'"
    using assms(3) by (simp add: consistent_categories_def consistent_entries_def)
  from assms(4) have run: "reconcile py items ?m0 = (Inr u, m1)" by (simp add: reconcile_run_def)
  from reconcile_effect[OF run d0 c0 w0 D S cons]
  have c1: "coherent m1" and f1: "frame ?m0 m1" and ok: "\<forall>item\<in>set items. item_ok py m1 item"
    by blast+
  from f1 have d1: "\<not> dry_run m1" and o1: "oxi_categories m1 = oxi"
    by (simp_all add: frame_def migrator_init_def)
  have again: "migrator_init (baka m1) oxi False = m1"
    by (rule migrator_init_again[OF c1 d1 o1])
  from reconcile_settled[OF ok] show ?thesis
    by (simp add: reconcile_run_def again)
qed

lemma agreeing_first:
  "reconcile_run no_builtins no_metadata agreeing_items empty_catalogue =
     (Inr (), snd (reconcile_run no_builtins no_metadata agreeing_items empty_catalogue))"
proof -
  have "fst (reconcile_run no_builtins no_metadata agreeing_items empty_catalogue) = Inr ()"
    by code_simp
  then show ?thesis by (metis prod.collapse)
qed

lemma agreeing_consistent: "consistent_categories no_builtins agreeing_items"
  by code_simp

lemma agreeing_calls:
  "calls (baka (snd (reconcile_run no_builtins no_metadata agreeing_items empty_catalogue))) =
     [CreateCategory ''a'' ''#808080'' 0, CreateTag ''cat'' (Some 1), AddTagToPost 1 ''cat'',
      GetPostSources 1, SetPostSources 1 [''http://a''], AddTagToPost 2 ''cat'']"
  by code_simp

lemma agreeing_second:
  "calls (baka (snd (reconcile_run no_builtins no_metadata agreeing_items
      (baka (snd (reconcile_run no_builtins no_metadata agreeing_items empty_catalogue)))))) =
     [CreateCategory ''a'' ''#808080'' 0, CreateTag ''cat'' (Some 1), AddTagToPost 1 ''cat'',
      GetPostSources 1, SetPostSources 1 [''http://a''], AddTagToPost 2 ''cat'',
      GetPostSources 1]"
  by code_simp

text \<open>
  Claim C3, amended, at two items whose origin posts both put the tag \<open>cat\<close> in the
  category \<open>a\<close>: the first run creates the category and the tag, attaches the tag twice
  and writes one source; the second run only reads the sources of post 1.
\<close>

theorem second_run_writes_nothing_witness:
  "distinct (map t_id (tags empty_catalogue))
 \<and> get_tag_categories no_builtins [] = Inr no_metadata
 \<and> consistent_categories no_builtins agreeing_items
 \<and> fst (reconcile_run no_builtins no_metadata agreeing_items empty_catalogue) = Inr ()
 \<and> calls (baka (snd (reconcile_run no_builtins no_metadata agreeing_items
      (baka (snd (reconcile_run no_builtins no_metadata agreeing_items empty_catalogue)))))) =
     calls (baka (snd (reconcile_run no_builtins no_metadata agreeing_items empty_catalogue)))
       @ [GetPostSources 1]"
proof -
  have h1: "distinct (map t_id (tags empty_catalogue))" by (simp add: empty_catalogue_def)
  have h2: "get_tag_categories no_builtins [] = Inr no_metadata"
    by (simp add: get_tag_categories_def no_metadata_def)
  note h3 = agreeing_consistent
  note h4 = agreeing_first
  from h4 have f: "fst (reconcile_run no_builtins no_metadata agreeing_items empty_catalogue) = Inr ()"
    by (metis fst_conv)
  have c: "calls (baka (snd (reconcile_run no_builtins no_metadata agreeing_items
      (baka (snd (reconcile_run no_builtins no_metadata agreeing_items empty_catalogue)))))) =
     calls (baka (snd (reconcile_run no_builtins no_metadata agreeing_items empty_catalogue)))
       @ [GetPostSources 1]"
    by (simp add: agreeing_calls agreeing_second)
  from second_run_writes_nothing [OF h1 h2 h3 h4] h1 h2 h3 f c show ?thesis by blast
qed

text \<open>
  Claim C3 as stated fails when the origin posts of two items give the same tag different
  categories: each run moves the tag to the first category and then to the second, so the
  second run issues two tag updates.
\<close>

theorem second_run_writes_counterexample:
  "fst (reconcile_run no_builtins no_metadata two_items empty_catalogue) = Inr ()
 \<and> calls (baka (snd (reconcile_run no_builtins no_metadata two_items empty_catalogue))) =
     [CreateCategory ''a'' ''#808080'' 0, CreateTag ''cat'' (Some 1),
      AddTagToPost 1 ''cat'', CreateCategory ''b'' ''#808080'' 0,
      UpdateTag 1 ''cat'' (Some 2), AddTagToPost 2 ''cat'']
 \<and> calls (baka (snd (reconcile_run no_builtins no_metadata two_items
      (baka (snd (reconcile_run no_builtins no_metadata two_items empty_catalogue)))))) =
     [CreateCategory ''a'' ''#808080'' 0, CreateTag ''cat'' (Some 1),
      AddTagToPost 1 ''cat'', CreateCategory ''b'' ''#808080'' 0,
      UpdateTag 1 ''cat'' (Some 2), AddTagToPost 2 ''cat'',
      UpdateTag 1 ''cat'' (Some 1), UpdateTag 1 ''cat'' (Some 2)]"
  by code_simp

end
